theory Spec2Isabelle
  imports Main
begin

section \<open>Links\<close>

text \<open>
  \<^verbatim>\<open>@dataclass(repr=True, eq=True, order=True, frozen=True) class Link\<close> with the fields
  \<^verbatim>\<open>depth: int\<close> and \<^verbatim>\<open>url: str\<close>. Python's \<^verbatim>\<open>int\<close> is unbounded, so \<open>depth\<close> is an
  \<^typ>\<open>int\<close>. A \<^typ>\<open>string\<close> is a list of bytes; the UTF-8 encoding keeps the order of
  code points, so comparing the bytes compares the Python strings.
\<close>

record Link =
  depth :: int
  url :: string

text \<open>
  Python compares two \<^verbatim>\<open>str\<close> values at the first position where they differ; when
  one is a prefix of the other, the shorter one is the smaller.
\<close>

fun str_lt :: "string \<Rightarrow> string \<Rightarrow> bool" where
  "str_lt [] [] = False"
| "str_lt [] (y # ys) = True"
| "str_lt (x # xs) [] = False"
| "str_lt (x # xs) (y # ys) =
     (if x \<noteq> y then (of_char x :: nat) < of_char y else str_lt xs ys)"

text \<open>
  The methods a dataclass generates compare the tuples of the fields:
  \<^verbatim>\<open>__eq__\<close> is \<^verbatim>\<open>(self.depth, self.url) == (other.depth, other.url)\<close> and \<^verbatim>\<open>__lt__\<close> is
  the same with \<^verbatim>\<open><\<close>. Python orders tuples by their first differing component.
\<close>

definition tuple_eq :: "int \<times> string \<Rightarrow> int \<times> string \<Rightarrow> bool" where
  "tuple_eq p q = (fst p = fst q \<and> snd p = snd q)"

definition tuple_lt :: "int \<times> string \<Rightarrow> int \<times> string \<Rightarrow> bool" where
  "tuple_lt p q =
     (if fst p \<noteq> fst q then fst p < fst q
      else if snd p \<noteq> snd q then str_lt (snd p) (snd q)
      else False)"

definition Link_eq :: "Link \<Rightarrow> Link \<Rightarrow> bool" where
  "Link_eq a b = tuple_eq (depth a, url a) (depth b, url b)"

definition Link_lt :: "Link \<Rightarrow> Link \<Rightarrow> bool" where
  "Link_lt a b = tuple_lt (depth a, url a) (depth b, url b)"

section \<open>The directed graph\<close>

text \<open>
  The part of \<^verbatim>\<open>networkx.DiGraph\<close> the crawler uses. A node is a URL; its attribute
  dictionary holds at most the key \<^verbatim>\<open>depth\<close>, so a node maps to the value of that
  attribute, if it has one. \<^verbatim>\<open>add_node(n, depth=d)\<close> creates the node or, when it
  exists, updates its attributes with the ones given. \<^verbatim>\<open>add_edge(u, v)\<close> creates the
  end points that are missing, with no attribute, and records the edge; a directed graph
  keeps one edge for a pair.
\<close>

record digraph =
  nodes :: "string \<rightharpoonup> int option"
  edges :: "(string \<times> string) set"

definition nx_add_node :: "digraph \<Rightarrow> string \<Rightarrow> int \<Rightarrow> digraph" where
  "nx_add_node g n d = g\<lparr>nodes := (nodes g)(n \<mapsto> Some d)\<rparr>"

definition nx_touch :: "string \<Rightarrow> (string \<rightharpoonup> int option) \<Rightarrow> (string \<rightharpoonup> int option)" where
  "nx_touch n m = (case m n of None \<Rightarrow> m(n \<mapsto> None) | Some a \<Rightarrow> m)"

definition nx_add_edge :: "digraph \<Rightarrow> string \<Rightarrow> string \<Rightarrow> digraph" where
  "nx_add_edge g u v =
     g\<lparr>nodes := nx_touch v (nx_touch u (nodes g)), edges := insert (u, v) (edges g)\<rparr>"

section \<open>The state of a crawl\<close>

text \<open>
  The exceptions that can be raised inside a consumer: a failure of the HTTP request or of
  reading and parsing the page (\<open>FetchError\<close>), \<^verbatim>\<open>ValueError\<close> (from \<^verbatim>\<open>urlparse\<close>,
  \<^verbatim>\<open>urljoin\<close> and \<^verbatim>\<open>Queue.task_done\<close>), \<^verbatim>\<open>TypeError\<close> (\<^verbatim>\<open>re.match\<close> on \<^verbatim>\<open>None\<close>) and
  \<^verbatim>\<open>KeyError\<close> (\<^verbatim>\<open>set.remove\<close> of an absent element).
\<close>

datatype error = FetchError | ValueError | TypeError | KeyError

text \<open>
  A consumer task is suspended at \<^verbatim>\<open>await queue.get()\<close>, suspended at
  \<^verbatim>\<open>await fetch_links(link.url, session)\<close> for the link it took, or has ended with an
  exception (no \<^verbatim>\<open>try\<close> surrounds the body of \<^verbatim>\<open>consume\<close>).
\<close>

datatype task = Waiting | Fetching Link | Failed error

text \<open>
  The module's sets \<^verbatim>\<open>visited_urls\<close> and \<^verbatim>\<open>urls_to_visit\<close>, the \<^verbatim>\<open>asyncio.Queue\<close> (its
  items in order and its counter of unfinished tasks), the graph and the consumer tasks.
  Three histories record what the run did: the links given to \<^verbatim>\<open>queue.put\<close>, the links
  returned by \<^verbatim>\<open>queue.get\<close> and the URLs given to \<^verbatim>\<open>session.get\<close>.
\<close>

record crawl_state =
  visited_urls :: "string set"
  urls_to_visit :: "string set"
  queue :: "Link list"
  unfinished_tasks :: int
  graph :: digraph
  consumers :: "task list"
  produced :: "Link list"
  consumed :: "Link list"
  requests :: "string list"

text \<open>
  What a run is given: the arguments of \<^verbatim>\<open>crawl\<close> and the library functions it calls.
  \<open>url_match u\<close> says whether \<^verbatim>\<open>re.match(url_regex, u)\<close> finds a match, \<open>netloc u\<close> is
  \<^verbatim>\<open>urlparse(u).netloc\<close> and \<open>urljoin b u\<close> is \<^verbatim>\<open>urljoin(b, u)\<close>; the last two raise
  \<^verbatim>\<open>ValueError\<close> on a string they cannot parse.
\<close>

record env =
  allowed_domains :: "string list"
  max_depth :: int
  url_match :: "string \<Rightarrow> bool"
  netloc :: "string \<Rightarrow> error + string"
  urljoin :: "string \<Rightarrow> string \<Rightarrow> error + string"

section \<open>The functions of the crawler\<close>

definition get_domain :: "env \<Rightarrow> string \<Rightarrow> error + string" where
  "get_domain E u = netloc E u"

definition has_valid_domain :: "env \<Rightarrow> string \<Rightarrow> error + bool" where
  "has_valid_domain E u =
     (case get_domain E u of Inl e \<Rightarrow> Inl e | Inr d \<Rightarrow> Inr (d \<in> set (allowed_domains E)))"

text \<open>
  An \<^verbatim>\<open>a\<close> tag without \<^verbatim>\<open>href\<close> gives \<^verbatim>\<open>None\<close>. \<^verbatim>\<open>urlparse(None)\<close> returns a result of
  bytes whose \<^verbatim>\<open>netloc\<close> is \<^verbatim>\<open>b''\<close>, which is not equal to the string \<^verbatim>\<open>""\<close>.
\<close>

definition is_relative_url :: "env \<Rightarrow> string option \<Rightarrow> error + bool" where
  "is_relative_url E h =
     (case h of
        None \<Rightarrow> Inr False
      | Some u \<Rightarrow> (case get_domain E u of Inl e \<Rightarrow> Inl e | Inr d \<Rightarrow> Inr (d = [])))"

definition is_url_to_visit :: "crawl_state \<Rightarrow> string \<Rightarrow> bool" where
  "is_url_to_visit s u = (u \<in> urls_to_visit s)"

definition is_url_visited :: "crawl_state \<Rightarrow> string \<Rightarrow> bool" where
  "is_url_visited s u = (u \<in> visited_urls s)"

text \<open>The body of the loop of \<^verbatim>\<open>fetch_links\<close> for one \<^verbatim>\<open>href\<close>, and the loop.\<close>

fun next_link_of :: "env \<Rightarrow> string \<Rightarrow> string option \<Rightarrow> error + string option" where
  "next_link_of E u None =
     (case is_relative_url E None of Inl e \<Rightarrow> Inl e | Inr r \<Rightarrow> Inr (if r then Some u else None))"
| "next_link_of E u (Some h) =
     (case is_relative_url E (Some h) of
        Inl e \<Rightarrow> Inl e
      | Inr r \<Rightarrow>
          if r then (case urljoin E u h of Inl e \<Rightarrow> Inl e | Inr j \<Rightarrow> Inr (Some j))
          else Inr (Some h))"

fun next_links_of :: "env \<Rightarrow> string \<Rightarrow> string option list \<Rightarrow> error + string option list" where
  "next_links_of E u [] = Inr []"
| "next_links_of E u (h # hs) =
     (case next_link_of E u h of
        Inl e \<Rightarrow> Inl e
      | Inr n \<Rightarrow> (case next_links_of E u hs of Inl e \<Rightarrow> Inl e | Inr ns \<Rightarrow> Inr (n # ns)))"

text \<open>
  \<open>page\<close> is what the request and the HTML parser give for the URL: an exception, or the
  \<^verbatim>\<open>href\<close> of every \<^verbatim>\<open>a\<close> tag of the page.
\<close>

definition fetch_links ::
  "env \<Rightarrow> string \<Rightarrow> error + string option list \<Rightarrow> error + string option list" where
  "fetch_links E u page = (case page of Inl e \<Rightarrow> Inl e | Inr hrefs \<Rightarrow> next_links_of E u hrefs)"

definition add_node :: "crawl_state \<Rightarrow> Link \<Rightarrow> crawl_state" where
  "add_node s l = s\<lparr>graph := nx_add_node (graph s) (url l) (depth l)\<rparr>"

definition add_edge :: "crawl_state \<Rightarrow> Link \<Rightarrow> Link \<Rightarrow> crawl_state" where
  "add_edge s l n = s\<lparr>graph := nx_add_edge (graph s) (url l) (url n)\<rparr>"

text \<open>
  \<^verbatim>\<open>produce\<close>: the queue has no size limit, so \<^verbatim>\<open>await queue.put(link)\<close> appends the link
  and counts one more unfinished task without suspending.
\<close>

definition produce :: "crawl_state \<Rightarrow> Link \<Rightarrow> crawl_state" where
  "produce s l =
     s\<lparr>urls_to_visit := insert (url l) (urls_to_visit s),
       queue := queue s @ [l],
       unfinished_tasks := unfinished_tasks s + 1,
       produced := produced s @ [l]\<rparr>"

text \<open>
  The body of \<^verbatim>\<open>for next_link in next_links\<close> in \<^verbatim>\<open>consume\<close>. The result is the exception
  raised, if any, and the state reached; what was changed before an exception stays changed.
\<close>

definition visit_link ::
  "env \<Rightarrow> Link \<Rightarrow> string option \<Rightarrow> crawl_state \<Rightarrow> error option \<times> crawl_state" where
  "visit_link E l c s =
     (case c of
        None \<Rightarrow> (Some TypeError, s)
      | Some n \<Rightarrow>
          if \<not> url_match E n then (None, s)
          else
            let next_link_obj = \<lparr>depth = depth l + 1, url = n\<rparr>;
                s2 = add_edge (add_node s next_link_obj) l next_link_obj
            in (case has_valid_domain E n of
                  Inl e \<Rightarrow> (Some e, s2)
                | Inr ok \<Rightarrow>
                    if ok \<and> \<not> is_url_visited s2 n \<and> \<not> is_url_to_visit s2 n
                    then (None, produce s2 next_link_obj)
                    else (None, s2)))"

fun visit_links ::
  "env \<Rightarrow> Link \<Rightarrow> string option list \<Rightarrow> crawl_state \<Rightarrow> error option \<times> crawl_state" where
  "visit_links E l [] s = (None, s)"
| "visit_links E l (c # cs) s =
     (case visit_link E l c s of
        (Some e, s') \<Rightarrow> (Some e, s')
      | (None, s') \<Rightarrow> visit_links E l cs s')"

text \<open>
  \<^verbatim>\<open>urls_to_visit.remove(link.url); visited_urls.add(link.url)\<close>: \<^verbatim>\<open>set.remove\<close> raises
  \<^verbatim>\<open>KeyError\<close> when the element is absent.
\<close>

definition mark_visited :: "string \<Rightarrow> crawl_state \<Rightarrow> error + crawl_state" where
  "mark_visited u s =
     (if u \<in> urls_to_visit s
      then Inr (s\<lparr>urls_to_visit := urls_to_visit s - {u},
                  visited_urls := insert u (visited_urls s)\<rparr>)
      else Inl KeyError)"

text \<open>\<^verbatim>\<open>Queue.task_done\<close> raises \<^verbatim>\<open>ValueError\<close> when no task is unfinished.\<close>

definition task_done :: "crawl_state \<Rightarrow> error + crawl_state" where
  "task_done s =
     (if unfinished_tasks s \<le> 0 then Inl ValueError
      else Inr (s\<lparr>unfinished_tasks := unfinished_tasks s - 1\<rparr>))"

definition set_task :: "nat \<Rightarrow> task \<Rightarrow> crawl_state \<Rightarrow> crawl_state" where
  "set_task i t s = s\<lparr>consumers := (consumers s)[i := t]\<rparr>"

text \<open>
  The end of an iteration of \<^verbatim>\<open>consume\<close>: the URL moves from one set to the other, the
  task is reported done and the consumer is back at \<^verbatim>\<open>queue.get\<close>.
\<close>

definition end_crawling :: "nat \<Rightarrow> Link \<Rightarrow> crawl_state \<Rightarrow> crawl_state" where
  "end_crawling i l s =
     (case mark_visited (url l) s of
        Inl e \<Rightarrow> set_task i (Failed e) s
      | Inr s1 \<Rightarrow>
          (case task_done s1 of
             Inl e \<Rightarrow> set_task i (Failed e) s1
           | Inr s2 \<Rightarrow> set_task i Waiting s2))"

text \<open>
  Consumer \<open>i\<close> takes the first link of the queue and runs until it suspends: it records
  the node and, below the depth limit, sends the request and waits; otherwise it ends the
  iteration at once.
\<close>

definition start_crawling :: "env \<Rightarrow> nat \<Rightarrow> crawl_state \<Rightarrow> crawl_state" where
  "start_crawling E i s =
     (case queue s of
        [] \<Rightarrow> s
      | l # q \<Rightarrow>
          let s1 = add_node (s\<lparr>queue := q, consumed := consumed s @ [l]\<rparr>) l
          in if depth l < max_depth E
             then set_task i (Fetching l) (s1\<lparr>requests := requests s1 @ [url l]\<rparr>)
             else end_crawling i l s1)"

text \<open>Consumer \<open>i\<close> resumes with the outcome of its request for link \<open>l\<close>.\<close>

definition resume_crawling ::
  "env \<Rightarrow> nat \<Rightarrow> Link \<Rightarrow> error + string option list \<Rightarrow> crawl_state \<Rightarrow> crawl_state" where
  "resume_crawling E i l page s =
     (case fetch_links E (url l) page of
        Inl e \<Rightarrow> set_task i (Failed e) s
      | Inr next_links \<Rightarrow>
          (case visit_links E l next_links s of
             (Some e, s') \<Rightarrow> set_task i (Failed e) s'
           | (None, s') \<Rightarrow> end_crawling i l s'))"

text \<open>
  \<^verbatim>\<open>crawl\<close> creates the queue and \<^verbatim>\<open>range(parallelism)\<close> consumers, and produces the start
  link before any consumer has run; this is the state in which it awaits \<^verbatim>\<open>queue.join()\<close>.
  The two sets are empty when the module is loaded.
\<close>

definition empty_state :: "int \<Rightarrow> crawl_state" where
  "empty_state parallelism =
     \<lparr>visited_urls = {}, urls_to_visit = {}, queue = [], unfinished_tasks = 0,
      graph = \<lparr>nodes = Map.empty, edges = {}\<rparr>,
      consumers = replicate (nat parallelism) Waiting,
      produced = [], consumed = [], requests = []\<rparr>"

definition crawl :: "string \<Rightarrow> int \<Rightarrow> crawl_state" where
  "crawl start_url parallelism = produce (empty_state parallelism) \<lparr>depth = 0, url = start_url\<rparr>"

text \<open>
  \<^verbatim>\<open>crawl_main\<close> allows the domain of the start URL and no other; \<^verbatim>\<open>get_domain\<close> is called
  before the crawl starts. The environment given supplies the other arguments.
\<close>

definition crawl_main :: "env \<Rightarrow> string \<Rightarrow> int \<Rightarrow> error + env \<times> crawl_state" where
  "crawl_main E start_url parallelism =
     (case get_domain E start_url of
        Inl e \<Rightarrow> Inl e
      | Inr d \<Rightarrow> Inr (E\<lparr>allowed_domains := [d]\<rparr>, crawl start_url parallelism))"

text \<open>\<^verbatim>\<open>queue.join()\<close> returns once no task is unfinished; the crawl is then over.\<close>

definition joined :: "crawl_state \<Rightarrow> bool" where
  "joined s = (unfinished_tasks s \<le> 0)"

text \<open>
  One step of the event loop: a waiting consumer takes a link from the queue, or a request
  completes, with any outcome, and its consumer goes on.
\<close>

inductive step :: "env \<Rightarrow> crawl_state \<Rightarrow> crawl_state \<Rightarrow> bool" for E :: env where
  get: "i < length (consumers s) \<Longrightarrow> consumers s ! i = Waiting \<Longrightarrow> queue s \<noteq> [] \<Longrightarrow>
        step E s (start_crawling E i s)"
| fetched: "i < length (consumers s) \<Longrightarrow> consumers s ! i = Fetching l \<Longrightarrow>
        step E s (resume_crawling E i l page s)"

inductive reachable :: "env \<Rightarrow> string \<Rightarrow> int \<Rightarrow> crawl_state \<Rightarrow> bool"
  for E :: env and start_url :: string and parallelism :: int where
  seeded: "reachable E start_url parallelism (crawl start_url parallelism)"
| later: "reachable E start_url parallelism s \<Longrightarrow> step E s s' \<Longrightarrow>
          reachable E start_url parallelism s'"

section \<open>Invariants of a crawl\<close>

text \<open>
  Links in the queue are at most at the limit, a link being fetched is strictly below it and
  its node exists, and every node has a depth attribute, at most the limit.
\<close>

definition depth_bounded :: "env \<Rightarrow> crawl_state \<Rightarrow> bool" where
  "depth_bounded E s =
     ((\<forall>l \<in> set (queue s). depth l \<le> max_depth E) \<and>
      (\<forall>l. Fetching l \<in> set (consumers s) \<longrightarrow>
            depth l < max_depth E \<and> nodes (graph s) (url l) \<noteq> None) \<and>
      (\<forall>u a. nodes (graph s) u = Some a \<longrightarrow> (\<exists>d. a = Some d \<and> d \<le> max_depth E)))"

text \<open>
  The URLs given to the queue are all different, and they are the URLs of the two sets.
\<close>

definition claimed_once :: "crawl_state \<Rightarrow> bool" where
  "claimed_once s =
     (distinct (map url (produced s)) \<and>
      set (map url (produced s)) = visited_urls s \<union> urls_to_visit s)"

text \<open>The queue is first in, first out: what was produced is what was consumed, then the queue.\<close>

definition fifo :: "crawl_state \<Rightarrow> bool" where
  "fifo s = (produced s = consumed s @ queue s)"

text \<open>A request was sent for each consumed link below the depth limit, and for no other.\<close>

definition requested :: "env \<Rightarrow> crawl_state \<Rightarrow> bool" where
  "requested E s =
     (requests s = map url (filter (\<lambda>l. depth l < max_depth E) (consumed s)))"

text \<open>
  The consumers that hold a link: those fetching, and those that ended with an exception,
  which never report their task done.
\<close>

definition busy :: "crawl_state \<Rightarrow> nat" where
  "busy s = length (filter (\<lambda>t. t \<noteq> Waiting) (consumers s))"

text \<open>The counter of the queue counts the links in the queue and the links held.\<close>

definition counted :: "crawl_state \<Rightarrow> bool" where
  "counted s = (unfinished_tasks s = int (length (queue s)) + int (busy s))"

text \<open>
  The state in which a crawl ends at once: the start link was taken and, the depth limit
  being 0 or less, not fetched.
\<close>

definition start_only :: "string \<Rightarrow> int \<Rightarrow> crawl_state" where
  "start_only start_url parallelism =
     \<lparr>visited_urls = {start_url}, urls_to_visit = {}, queue = [], unfinished_tasks = 0,
      graph = \<lparr>nodes = [start_url \<mapsto> Some 0], edges = {}\<rparr>,
      consumers = replicate (nat parallelism) Waiting,
      produced = [\<lparr>depth = 0, url = start_url\<rparr>],
      consumed = [\<lparr>depth = 0, url = start_url\<rparr>], requests = []\<rparr>"

text \<open>
  The links a page contributes to the queue: a candidate that matches the pattern, is in an
  allowed domain and is in neither set when the loop over the page's candidates starts, at
  the depth of the page plus one.
\<close>

definition accepted :: "env \<Rightarrow> Link \<Rightarrow> crawl_state \<Rightarrow> string option list \<Rightarrow> Link set" where
  "accepted E l s cs =
     (\<lambda>n. \<lparr>depth = depth l + 1, url = n\<rparr>) `
       {n. Some n \<in> set cs \<and> url_match E n \<and> has_valid_domain E n = Inr True \<and>
           n \<notin> visited_urls s \<and> n \<notin> urls_to_visit s}"

text \<open>
  What the loop over the candidates \<open>cs\<close> of the page of link \<open>l\<close> has done when it ends
  without an exception, from state \<open>s\<close> to state \<open>s'\<close>: it has put the links \<open>new\<close> in the
  queue.
\<close>

definition enqueued_by ::
  "env \<Rightarrow> Link \<Rightarrow> string option list \<Rightarrow> crawl_state \<Rightarrow> crawl_state \<Rightarrow> Link list \<Rightarrow> bool" where
  "enqueued_by E l cs s s' new =
     (produced s' = produced s @ new \<and> queue s' = queue s @ new \<and>
      distinct (map url new) \<and> set new = accepted E l s cs \<and>
      visited_urls s' = visited_urls s \<and>
      urls_to_visit s' = urls_to_visit s \<union> url ` set new \<and>
      edges (graph s') = edges (graph s) \<union> {(url l, n) |n. Some n \<in> set cs \<and> url_match E n})"

section \<open>Arguments and states of the example runs\<close>

text \<open>
  Library functions and arguments for the example runs: \<^verbatim>\<open>urlparse(u).netloc\<close> for an
  \<^verbatim>\<open>http\<close> URL (the text between \<^verbatim>\<open>http://\<close> and the next \<^verbatim>\<open>/\<close>, with \<^verbatim>\<open>ValueError\<close>
  when it holds one square bracket without the other), \<^verbatim>\<open>urljoin\<close> of such a URL and an
  absolute path, and the default \<^verbatim>\<open>--url-regex\<close>, \<^verbatim>\<open>(http://.*|https://.*)\<close>.
\<close>

definition demo_netloc :: "string \<Rightarrow> error + string" where
  "demo_netloc u =
     (let n = (if take 7 u = ''http://'' then takeWhile (\<lambda>c. c \<noteq> CHR ''/'') (drop 7 u) else [])
      in if (CHR ''['' \<in> set n) \<noteq> (CHR '']'' \<in> set n) then Inl ValueError else Inr n)"

definition demo_urljoin :: "string \<Rightarrow> string \<Rightarrow> error + string" where
  "demo_urljoin b u =
     (case demo_netloc b of Inl e \<Rightarrow> Inl e | Inr n \<Rightarrow> Inr (''http://'' @ n @ u))"

definition demo_match :: "string \<Rightarrow> bool" where
  "demo_match u = (take 7 u = ''http://'' \<or> take 8 u = ''https://'')"

definition demo_env :: "int \<Rightarrow> env" where
  "demo_env d =
     \<lparr>allowed_domains = [''a''], max_depth = d, url_match = demo_match,
      netloc = demo_netloc, urljoin = demo_urljoin\<rparr>"

text \<open>The run with one consumer and depth limit 1, first with the start page being fetched and
  then for a start page that links to itself.\<close>

definition run_1 :: crawl_state where
  "run_1 = start_crawling (demo_env 1) 0 (crawl ''http://a/'' 1)"

definition self_2 :: crawl_state where
  "self_2 = resume_crawling (demo_env 1) 0 \<lparr>depth = 0, url = ''http://a/''\<rparr>
              (Inr [Some ''http://a/'']) run_1"

text \<open>
  The start page links to \<^verbatim>\<open>/b\<close>, to \<^verbatim>\<open>http://a/c\<close> and to a page of another host; one
  consumer, depth limit 1. The two links of the allowed domain are then taken from the queue.
\<close>

definition site_2 :: crawl_state where
  "site_2 = resume_crawling (demo_env 1) 0 \<lparr>depth = 0, url = ''http://a/''\<rparr>
              (Inr [Some ''/b'', Some ''http://a/c'', Some ''http://o/x'']) run_1"

definition site_3 :: crawl_state where
  "site_3 = start_crawling (demo_env 1) 0 site_2"

definition site_4 :: crawl_state where
  "site_4 = start_crawling (demo_env 1) 0 site_3"

text \<open>
  Two consumers and depth limit 3. The start page links to \<^verbatim>\<open>/b\<close> and \<^verbatim>\<open>/c\<close>, which are
  fetched at the same time, and each of the two links to \<^verbatim>\<open>/d\<close>.
\<close>

definition two_1 :: crawl_state where
  "two_1 = start_crawling (demo_env 3) 0 (crawl ''http://a/'' 2)"

definition two_2 :: crawl_state where
  "two_2 = resume_crawling (demo_env 3) 0 \<lparr>depth = 0, url = ''http://a/''\<rparr>
             (Inr [Some ''/b'', Some ''/c'']) two_1"

definition two_3 :: crawl_state where
  "two_3 = start_crawling (demo_env 3) 0 two_2"

definition two_4 :: crawl_state where
  "two_4 = start_crawling (demo_env 3) 1 two_3"

definition two_5 :: crawl_state where
  "two_5 = resume_crawling (demo_env 3) 0 \<lparr>depth = 1, url = ''http://a/b''\<rparr>
             (Inr [Some ''/d'']) two_4"

definition two_6 :: crawl_state where
  "two_6 = resume_crawling (demo_env 3) 1 \<lparr>depth = 1, url = ''http://a/c''\<rparr>
             (Inr [Some ''/d'']) two_5"

definition two_7 :: crawl_state where
  "two_7 = start_crawling (demo_env 3) 0 two_6"

definition two_8 :: crawl_state where
  "two_8 = resume_crawling (demo_env 3) 0 \<lparr>depth = 2, url = ''http://a/d''\<rparr> (Inr []) two_7"

text \<open>The request for the start page fails; its page has a tag without \<^verbatim>\<open>href\<close>; its page has
  an \<^verbatim>\<open>href\<close> that \<^verbatim>\<open>urlparse\<close> rejects.\<close>

definition failed_fetch :: crawl_state where
  "failed_fetch = resume_crawling (demo_env 1) 0 \<lparr>depth = 0, url = ''http://a/''\<rparr>
                    (Inl FetchError) run_1"

definition missing_href :: crawl_state where
  "missing_href = resume_crawling (demo_env 1) 0 \<lparr>depth = 0, url = ''http://a/''\<rparr>
                    (Inr [None]) run_1"

definition malformed_href :: crawl_state where
  "malformed_href = resume_crawling (demo_env 1) 0 \<lparr>depth = 0, url = ''http://a/''\<rparr>
                      (Inr [Some ''http://['']) run_1"

section \<open>The two sets stay disjoint\<close>

text \<open>
  Each operation is followed through the state it returns. The loop over the candidate
  links keeps whatever a single iteration keeps.
\<close>

lemmas ops_defs = add_node_def add_edge_def produce_def set_task_def mark_visited_def
  task_done_def is_url_visited_def is_url_to_visit_def

lemma visit_link_visited:
  "visit_link E l c s = (r, s') \<Longrightarrow> visited_urls s' = visited_urls s"
  by (auto simp: visit_link_def ops_defs Let_def split: option.splits sum.splits if_splits)

lemma visit_links_visited:
  "visit_links E l cs s = (r, s') \<Longrightarrow> visited_urls s' = visited_urls s"
proof (induction cs arbitrary: s)
  case Nil
  then show ?case by simp
next
  case (Cons c cs)
  obtain r1 s1 where v: "visit_link E l c s = (r1, s1)" by (cases "visit_link E l c s")
  show ?case
  proof (cases r1)
    case None
    with v Cons.prems have "visit_links E l cs s1 = (r, s')" by simp
    with Cons.IH v show ?thesis by (simp add: visit_link_visited[OF v])
  next
    case (Some e)
    with v Cons.prems have "s' = s1" by simp
    with v show ?thesis by (simp add: visit_link_visited)
  qed
qed

lemma visit_link_disjoint:
  "visit_link E l c s = (r, s') \<Longrightarrow> visited_urls s \<inter> urls_to_visit s = {} \<Longrightarrow>
   visited_urls s' \<inter> urls_to_visit s' = {}"
  by (auto simp: visit_link_def ops_defs Let_def split: option.splits sum.splits if_splits)

lemma visit_links_disjoint:
  "visit_links E l cs s = (r, s') \<Longrightarrow> visited_urls s \<inter> urls_to_visit s = {} \<Longrightarrow>
   visited_urls s' \<inter> urls_to_visit s' = {}"
proof (induction cs arbitrary: s)
  case Nil
  then show ?case by simp
next
  case (Cons c cs)
  obtain r1 s1 where v: "visit_link E l c s = (r1, s1)" by (cases "visit_link E l c s")
  have d1: "visited_urls s1 \<inter> urls_to_visit s1 = {}"
    using visit_link_disjoint[OF v Cons.prems(2)] .
  show ?case
  proof (cases r1)
    case None
    with v Cons.prems have "visit_links E l cs s1 = (r, s')" by simp
    then show ?thesis using Cons.IH d1 by blast
  next
    case (Some e)
    with v Cons.prems have "s' = s1" by simp
    with d1 show ?thesis by simp
  qed
qed

lemma end_crawling_disjoint:
  "visited_urls s \<inter> urls_to_visit s = {} \<Longrightarrow>
   visited_urls (end_crawling i l s) \<inter> urls_to_visit (end_crawling i l s) = {}"
  by (auto simp: end_crawling_def ops_defs split: sum.splits if_splits)

lemma end_crawling_visited_mono: "visited_urls s \<subseteq> visited_urls (end_crawling i l s)"
  by (auto simp: end_crawling_def ops_defs split: sum.splits if_splits)

lemma start_crawling_disjoint:
  "visited_urls s \<inter> urls_to_visit s = {} \<Longrightarrow>
   visited_urls (start_crawling E i s) \<inter> urls_to_visit (start_crawling E i s) = {}"
  by (auto simp: start_crawling_def Let_def add_node_def set_task_def
      intro!: end_crawling_disjoint split: list.splits)

lemma start_crawling_visited_mono: "visited_urls s \<subseteq> visited_urls (start_crawling E i s)"
proof (cases "queue s")
  case Nil
  then show ?thesis by (simp add: start_crawling_def)
next
  case (Cons l q)
  let ?s1 = "add_node (s\<lparr>queue := q, consumed := consumed s @ [l]\<rparr>) l"
  have "visited_urls ?s1 = visited_urls s" by (simp add: add_node_def)
  with end_crawling_visited_mono[of ?s1 i l] Cons show ?thesis
    by (simp add: start_crawling_def Let_def set_task_def)
qed

lemma resume_crawling_disjoint:
  assumes "visited_urls s \<inter> urls_to_visit s = {}"
  shows "visited_urls (resume_crawling E i l page s) \<inter> urls_to_visit (resume_crawling E i l page s) = {}"
proof (cases "fetch_links E (url l) page")
  case (Inl e)
  with assms show ?thesis by (simp add: resume_crawling_def set_task_def)
next
  case (Inr ns)
  obtain r s' where v: "visit_links E l ns s = (r, s')" by (cases "visit_links E l ns s")
  have d: "visited_urls s' \<inter> urls_to_visit s' = {}" using visit_links_disjoint[OF v assms] .
  show ?thesis
  proof (cases r)
    case None
    with Inr v end_crawling_disjoint[OF d, of i l] show ?thesis by (simp add: resume_crawling_def)
  next
    case (Some e)
    with Inr v d show ?thesis by (simp add: resume_crawling_def set_task_def)
  qed
qed

lemma resume_crawling_visited_mono: "visited_urls s \<subseteq> visited_urls (resume_crawling E i l page s)"
proof (cases "fetch_links E (url l) page")
  case (Inl e)
  then show ?thesis by (simp add: resume_crawling_def set_task_def)
next
  case (Inr ns)
  obtain r s' where v: "visit_links E l ns s = (r, s')" by (cases "visit_links E l ns s")
  have d: "visited_urls s' = visited_urls s" using visit_links_visited[OF v] .
  show ?thesis
  proof (cases r)
    case None
    with Inr v end_crawling_visited_mono[of s' i l] d show ?thesis by (simp add: resume_crawling_def)
  next
    case (Some e)
    with Inr v d show ?thesis by (simp add: resume_crawling_def set_task_def)
  qed
qed

lemma reachable_disjoint:
  "reachable E u n s \<Longrightarrow> visited_urls s \<inter> urls_to_visit s = {}"
proof (induction rule: reachable.induct)
  case seeded
  show ?case by (simp add: crawl_def produce_def empty_state_def)
next
  case (later s s')
  from later.hyps(2) later.IH show ?case
    by (cases rule: step.cases) (simp_all add: start_crawling_disjoint resume_crawling_disjoint)
qed

lemma step_visited_mono: "step E s s' \<Longrightarrow> visited_urls s \<subseteq> visited_urls s'"
  by (erule step.cases) (simp_all add: start_crawling_visited_mono resume_crawling_visited_mono)

lemma steps_visited_mono: "(step E)\<^sup>*\<^sup>* s s' \<Longrightarrow> visited_urls s \<subseteq> visited_urls s'"
  by (induction rule: rtranclp_induct) (auto dest: step_visited_mono)

lemma steps_reachable: "(step E)\<^sup>*\<^sup>* s s' \<Longrightarrow> reachable E u n s \<Longrightarrow> reachable E u n s'"
  by (induction rule: rtranclp_induct) (auto intro: reachable.later)

section \<open>A loop keeps what each iteration keeps\<close>

lemma visit_links_keeps:
  assumes one: "\<And>c s r s'. visit_link E l c s = (r, s') \<Longrightarrow> P s \<Longrightarrow> P s'"
    and run: "visit_links E l cs s = (r, s')"
    and start: "P s"
  shows "P s'"
  using run start
proof (induction cs arbitrary: s)
  case Nil
  then show ?case by simp
next
  case (Cons c cs)
  obtain r1 s1 where v: "visit_link E l c s = (r1, s1)" by (cases "visit_link E l c s")
  have p1: "P s1" using one[OF v Cons.prems(2)] .
  show ?case
  proof (cases r1)
    case None
    with v Cons.prems have "visit_links E l cs s1 = (r, s')" by simp
    then show ?thesis using Cons.IH p1 by blast
  next
    case (Some e)
    with v Cons.prems have "s' = s1" by simp
    with p1 show ?thesis by simp
  qed
qed

lemma visit_link_consumers:
  "visit_link E l c s = (r, s') \<Longrightarrow> consumers s' = consumers s"
  by (auto simp: visit_link_def ops_defs Let_def split: option.splits sum.splits if_splits)

lemma visit_links_consumers:
  assumes "visit_links E l cs s = (r, s')"
  shows "consumers s' = consumers s"
  using visit_links_keeps[where P = "\<lambda>t. consumers t = consumers s", OF _ assms]
  by (simp add: visit_link_consumers)

section \<open>No link and no node beyond the depth limit\<close>

lemma nx_touch_present: "m n \<noteq> None \<Longrightarrow> nx_touch n m = m"
  by (auto simp: nx_touch_def)

lemma visit_link_depth_bounded:
  assumes v: "visit_link E l c s = (r, s')"
    and inv: "depth_bounded E s \<and> Fetching l \<in> set (consumers s)"
  shows "depth_bounded E s' \<and> Fetching l \<in> set (consumers s')"
proof -
  from inv have par: "depth l < max_depth E" "nodes (graph s) (url l) \<noteq> None"
    by (auto simp: depth_bounded_def)
  have c: "consumers s' = consumers s" using visit_link_consumers[OF v] .
  show ?thesis
  proof (cases c)
    case None
    with v inv show ?thesis by (simp add: visit_link_def)
  next
    case (Some n)
    show ?thesis
    proof (cases "url_match E n")
      case False
      with v Some inv show ?thesis by (simp add: visit_link_def)
    next
      case True
      let ?c = "\<lparr>depth = depth l + 1, url = n\<rparr>"
      let ?s2 = "add_edge (add_node s ?c) l ?c"
      have g: "nodes (graph ?s2) = (nodes (graph s))(n \<mapsto> Some (depth l + 1))"
        using par by (simp add: add_edge_def add_node_def nx_add_edge_def nx_add_node_def
            nx_touch_present)
      have q: "queue ?s2 = queue s" "consumers ?s2 = consumers s"
        by (simp_all add: add_edge_def add_node_def)
      have b2: "depth_bounded E ?s2"
        using inv par unfolding depth_bounded_def g q by auto
      have b3: "depth_bounded E (produce ?s2 ?c)"
        using b2 par by (auto simp: depth_bounded_def produce_def)
      from v Some True have "s' = ?s2 \<or> s' = produce ?s2 ?c"
        by (auto simp: visit_link_def Let_def split: sum.splits if_splits)
      with b2 b3 c inv show ?thesis by auto
    qed
  qed
qed

lemma visit_links_depth_bounded:
  assumes "visit_links E l cs s = (r, s')"
    and "depth_bounded E s" and "Fetching l \<in> set (consumers s)"
  shows "depth_bounded E s'"
  using visit_links_keeps[where P = "\<lambda>t. depth_bounded E t \<and> Fetching l \<in> set (consumers t)",
      OF _ assms(1)] visit_link_depth_bounded assms(2,3)
  by blast

lemma set_task_depth_bounded:
  "depth_bounded E s \<Longrightarrow> (\<And>l. t \<noteq> Fetching l) \<Longrightarrow> depth_bounded E (set_task i t s)"
proof -
  assume b: "depth_bounded E s" and t: "\<And>l. t \<noteq> Fetching l"
  have "Fetching l \<in> set ((consumers s)[i := t]) \<Longrightarrow> Fetching l \<in> set (consumers s)" for l
    using set_update_subset_insert[of "consumers s" i t] t[of l] by blast
  with b show ?thesis unfolding depth_bounded_def set_task_def by simp
qed

lemma end_crawling_depth_bounded:
  "depth_bounded E s \<Longrightarrow> depth_bounded E (end_crawling i l s)"
proof -
  assume b: "depth_bounded E s"
  have m: "mark_visited (url l) s = Inr s1 \<Longrightarrow> depth_bounded E s1" for s1
    using b by (auto simp: mark_visited_def depth_bounded_def split: if_splits)
  have t: "task_done s1 = Inr s2 \<Longrightarrow> depth_bounded E s1 \<Longrightarrow> depth_bounded E s2" for s1 s2
    by (auto simp: task_done_def depth_bounded_def split: if_splits)
  show ?thesis
    using b m t by (auto simp: end_crawling_def intro!: set_task_depth_bounded split: sum.splits)
qed

lemma start_crawling_depth_bounded:
  assumes b: "depth_bounded E s"
  shows "depth_bounded E (start_crawling E i s)"
proof (cases "queue s")
  case Nil
  with b show ?thesis by (simp add: start_crawling_def)
next
  case (Cons l q)
  let ?s1 = "add_node (s\<lparr>queue := q, consumed := consumed s @ [l]\<rparr>) l"
  from b Cons have dl: "depth l \<le> max_depth E" by (simp add: depth_bounded_def)
  have b1: "depth_bounded E ?s1"
    using b Cons dl by (auto simp: depth_bounded_def add_node_def nx_add_node_def)
  have n1: "nodes (graph ?s1) (url l) \<noteq> None" by (simp add: add_node_def nx_add_node_def)
  show ?thesis
  proof (cases "depth l < max_depth E")
    case True
    have "depth_bounded E (set_task i (Fetching l) (?s1\<lparr>requests := requests ?s1 @ [url l]\<rparr>))"
      using b1 n1 True set_update_subset_insert[of "consumers s" i "Fetching l"]
      unfolding depth_bounded_def set_task_def by (auto simp: add_node_def)
    with Cons True show ?thesis by (simp add: start_crawling_def Let_def)
  next
    case False
    with Cons end_crawling_depth_bounded[OF b1, of i l] show ?thesis
      by (simp add: start_crawling_def Let_def)
  qed
qed

lemma resume_crawling_depth_bounded:
  assumes b: "depth_bounded E s" and f: "Fetching l \<in> set (consumers s)"
  shows "depth_bounded E (resume_crawling E i l page s)"
proof (cases "fetch_links E (url l) page")
  case (Inl e)
  with b show ?thesis by (simp add: resume_crawling_def set_task_depth_bounded)
next
  case (Inr ns)
  obtain r s' where v: "visit_links E l ns s = (r, s')" by (cases "visit_links E l ns s")
  have d: "depth_bounded E s'" using visit_links_depth_bounded[OF v b f] .
  show ?thesis
  proof (cases r)
    case None
    with Inr v end_crawling_depth_bounded[OF d, of i l] show ?thesis
      by (simp add: resume_crawling_def)
  next
    case (Some e)
    with Inr v d show ?thesis by (simp add: resume_crawling_def set_task_depth_bounded)
  qed
qed

lemma reachable_depth_bounded:
  assumes "reachable E u n s" and "0 \<le> max_depth E"
  shows "depth_bounded E s"
  using assms
proof (induction rule: reachable.induct)
  case seeded
  then show ?case by (simp add: crawl_def produce_def empty_state_def depth_bounded_def)
next
  case (later s s')
  from later.hyps(2) later.IH later.prems show ?case
  proof (cases rule: step.cases)
    case (get i)
    with later show ?thesis by (simp add: start_crawling_depth_bounded)
  next
    case (fetched i l page)
    then have "Fetching l \<in> set (consumers s)" by (metis nth_mem)
    with fetched later show ?thesis by (simp add: resume_crawling_depth_bounded)
  qed
qed

section \<open>Properties that do not depend on the consumers\<close>

lemma step_keeps:
  assumes st: "step E s s'" and p: "P s"
    and visit: "\<And>l c s r s'. visit_link E l c s = (r, s') \<Longrightarrow> P s \<Longrightarrow> P s'"
    and fin: "\<And>i l s. P s \<Longrightarrow> P (end_crawling i l s)"
    and task: "\<And>i t s. P s \<Longrightarrow> P (set_task i t s)"
    and take_fetch: "\<And>l q s. P s \<Longrightarrow> queue s = l # q \<Longrightarrow> depth l < max_depth E \<Longrightarrow>
        P ((add_node (s\<lparr>queue := q, consumed := consumed s @ [l]\<rparr>) l)
            \<lparr>requests := requests s @ [url l]\<rparr>)"
    and take_skip: "\<And>l q s. P s \<Longrightarrow> queue s = l # q \<Longrightarrow> \<not> depth l < max_depth E \<Longrightarrow>
        P (add_node (s\<lparr>queue := q, consumed := consumed s @ [l]\<rparr>) l)"
  shows "P s'"
  using st
proof (cases rule: step.cases)
  case (get i)
  then obtain l q where q: "queue s = l # q" by (cases "queue s") auto
  show ?thesis
  proof (cases "depth l < max_depth E")
    case True
    from task[OF take_fetch[OF p q True], of i "Fetching l"] get q True show ?thesis
      by (simp add: start_crawling_def Let_def add_node_def)
  next
    case False
    from fin[OF take_skip[OF p q False], of i l] get q False show ?thesis
      by (simp add: start_crawling_def Let_def)
  qed
next
  case (fetched i l page)
  show ?thesis
  proof (cases "fetch_links E (url l) page")
    case (Inl e)
    with fetched task[OF p] show ?thesis by (simp add: resume_crawling_def)
  next
    case (Inr ns)
    obtain r t where v: "visit_links E l ns s = (r, t)" by (cases "visit_links E l ns s")
    have pt: "P t" using visit_links_keeps[where P = P, OF visit v p] .
    show ?thesis
    proof (cases r)
      case None
      with Inr v fetched fin[OF pt, of i l] show ?thesis by (simp add: resume_crawling_def)
    next
      case (Some e)
      with Inr v fetched task[OF pt, of i "Failed e"] show ?thesis
        by (simp add: resume_crawling_def)
    qed
  qed
qed

section \<open>Every URL is claimed once\<close>

lemma visit_link_cases:
  assumes "visit_link E l c s = (r, s')"
  obtains (same) "s' = s"
  | (recorded) n where "c = Some n" "url_match E n"
      "s' = add_edge (add_node s \<lparr>depth = depth l + 1, url = n\<rparr>) l \<lparr>depth = depth l + 1, url = n\<rparr>"
  | (claimed) n where "c = Some n" "url_match E n" "has_valid_domain E n = Inr True"
      "n \<notin> visited_urls s" "n \<notin> urls_to_visit s" "r = None"
      "s' = produce (add_edge (add_node s \<lparr>depth = depth l + 1, url = n\<rparr>) l
             \<lparr>depth = depth l + 1, url = n\<rparr>) \<lparr>depth = depth l + 1, url = n\<rparr>"
  using assms
  by (auto simp: visit_link_def Let_def is_url_visited_def is_url_to_visit_def add_edge_def
      add_node_def split: option.splits sum.splits if_splits)

lemma produce_claimed_once:
  assumes c: "claimed_once s" and n: "url l \<notin> visited_urls s" "url l \<notin> urls_to_visit s"
  shows "claimed_once (produce s l)"
proof -
  from c have d: "distinct (map url (produced s))"
    and e: "set (map url (produced s)) = visited_urls s \<union> urls_to_visit s"
    by (simp_all add: claimed_once_def)
  from e n have "url l \<notin> set (map url (produced s))" by simp
  with d have "distinct (map url (produced s @ [l]))" by simp
  moreover from e have "set (map url (produced s @ [l])) =
      visited_urls s \<union> insert (url l) (urls_to_visit s)" by auto
  ultimately show ?thesis by (simp add: claimed_once_def produce_def)
qed

lemma graph_claimed_once: "claimed_once (s\<lparr>graph := g\<rparr>) = claimed_once s"
  by (simp add: claimed_once_def)

lemma visit_link_claimed_once:
  assumes v: "visit_link E l c s = (r, s')" and c: "claimed_once s"
  shows "claimed_once s'"
  using v
proof (cases rule: visit_link_cases)
  case same
  with c show ?thesis by simp
next
  case (recorded n)
  with c show ?thesis by (simp add: add_edge_def add_node_def graph_claimed_once)
next
  case (claimed n)
  let ?c = "\<lparr>depth = depth l + 1, url = n\<rparr>"
  have "claimed_once (add_edge (add_node s ?c) l ?c)"
    using c by (simp add: add_edge_def add_node_def graph_claimed_once)
  from produce_claimed_once[OF this, of ?c] claimed show ?thesis
    by (simp add: add_edge_def add_node_def)
qed

lemma end_crawling_claimed_once:
  assumes c: "claimed_once s"
  shows "claimed_once (end_crawling i l s)"
proof (cases "url l \<in> urls_to_visit s")
  case False
  with c show ?thesis
    by (simp add: end_crawling_def mark_visited_def set_task_def claimed_once_def)
next
  case True
  then have "insert (url l) (visited_urls s) \<union> (urls_to_visit s - {url l}) =
      visited_urls s \<union> urls_to_visit s" by auto
  with c True show ?thesis
    by (simp add: end_crawling_def mark_visited_def task_done_def set_task_def claimed_once_def)
qed

lemma step_claimed_once: "step E s s' \<Longrightarrow> claimed_once s \<Longrightarrow> claimed_once s'"
proof (erule step_keeps[where P = claimed_once], assumption)
qed (simp_all add: visit_link_claimed_once end_crawling_claimed_once,
    simp_all add: claimed_once_def set_task_def add_node_def)

lemma reachable_claimed_once: "reachable E u n s \<Longrightarrow> claimed_once s"
proof (induction rule: reachable.induct)
  case seeded
  show ?case by (simp add: crawl_def produce_def empty_state_def claimed_once_def)
next
  case (later s s')
  then show ?case by (simp add: step_claimed_once)
qed

lemma visit_link_fifo: "visit_link E l c s = (r, s') \<Longrightarrow> fifo s \<Longrightarrow> fifo s'"
  by (auto simp: visit_link_def ops_defs Let_def fifo_def
      split: option.splits sum.splits if_splits)

lemma end_crawling_fifo: "fifo s \<Longrightarrow> fifo (end_crawling i l s)"
  by (auto simp: end_crawling_def ops_defs fifo_def split: sum.splits if_splits)

lemma step_fifo: "step E s s' \<Longrightarrow> fifo s \<Longrightarrow> fifo s'"
proof (erule step_keeps[where P = fifo], assumption)
qed (simp_all add: visit_link_fifo end_crawling_fifo,
    simp_all add: fifo_def set_task_def add_node_def)

lemma reachable_fifo: "reachable E u n s \<Longrightarrow> fifo s"
proof (induction rule: reachable.induct)
  case seeded
  show ?case by (simp add: crawl_def produce_def empty_state_def fifo_def)
next
  case (later s s')
  then show ?case by (simp add: step_fifo)
qed

lemma visit_link_requested:
  "visit_link E l c s = (r, s') \<Longrightarrow> requested E s \<Longrightarrow> requested E s'"
  by (auto simp: visit_link_def ops_defs Let_def requested_def
      split: option.splits sum.splits if_splits)

lemma end_crawling_requested: "requested E s \<Longrightarrow> requested E (end_crawling i l s)"
  by (auto simp: end_crawling_def ops_defs requested_def split: sum.splits if_splits)

lemma step_requested: "step E s s' \<Longrightarrow> requested E s \<Longrightarrow> requested E s'"
proof (erule step_keeps[where P = "requested E"], assumption)
qed (simp_all add: visit_link_requested end_crawling_requested,
    simp_all add: requested_def set_task_def add_node_def)

lemma reachable_requested: "reachable E u n s \<Longrightarrow> requested E s"
proof (induction rule: reachable.induct)
  case seeded
  show ?case by (simp add: crawl_def produce_def empty_state_def requested_def)
next
  case (later s s')
  then show ?case by (simp add: step_requested)
qed

section \<open>The counter of unfinished tasks\<close>

lemma filter_update_length:
  "i < length xs \<Longrightarrow>
   length (filter P (xs[i := x])) + (if P (xs ! i) then 1 else 0) =
   length (filter P xs) + (if P x then 1 else 0)"
proof (induction xs arbitrary: i)
  case Nil
  then show ?case by simp
next
  case (Cons a xs)
  then show ?case by (cases i) auto
qed

lemma busy_set_task:
  assumes "i < length (consumers s)"
  shows "busy (set_task i t s) = busy (set_task i Waiting s) + (if t \<noteq> Waiting then 1 else 0)"
  using filter_update_length[of i "(consumers s)[i := Waiting]" "\<lambda>t. t \<noteq> Waiting" t] assms
  by (simp add: busy_def set_task_def)

lemma busy_split:
  assumes "i < length (consumers s)"
  shows "busy s = busy (set_task i Waiting s) + (if consumers s ! i \<noteq> Waiting then 1 else 0)"
  using filter_update_length[of i "consumers s" "\<lambda>t. t \<noteq> Waiting" Waiting] assms
  by (simp add: busy_def set_task_def)

lemma busy_other_fields:
  "busy (s\<lparr>graph := g\<rparr>) = busy s"
  "busy (s\<lparr>requests := rq\<rparr>) = busy s"
  "busy (s\<lparr>queue := q, consumed := cs\<rparr>) = busy s"
  "busy (produce s l) = busy s"
  by (simp_all add: busy_def produce_def)

lemma visit_link_counted:
  assumes v: "visit_link E l c s = (r, s')" and c: "counted s"
  shows "counted s'"
  using v
proof (cases rule: visit_link_cases)
  case same
  with c show ?thesis by simp
next
  case (recorded n)
  with c show ?thesis by (simp add: add_edge_def add_node_def counted_def busy_def)
next
  case (claimed n)
  with c show ?thesis by (simp add: add_edge_def add_node_def counted_def busy_def produce_def)
qed

lemma visit_links_counted:
  "visit_links E l cs s = (r, s') \<Longrightarrow> counted s \<Longrightarrow> counted s'"
  using visit_links_keeps[where P = counted] visit_link_counted by blast

lemma end_crawling_counted:
  assumes i: "i < length (consumers s)"
    and u: "unfinished_tasks s = int (length (queue s)) + int (busy (set_task i Waiting s)) + 1"
  shows "counted (end_crawling i l s)"
proof (cases "mark_visited (url l) s")
  case (Inl e)
  with u busy_set_task[OF i, of "Failed e"] show ?thesis
    by (simp add: end_crawling_def counted_def set_task_def)
next
  case (Inr s1)
  then have s1: "s1 = s\<lparr>urls_to_visit := urls_to_visit s - {url l},
      visited_urls := insert (url l) (visited_urls s)\<rparr>"
    by (simp add: mark_visited_def split: if_splits)
  have i1: "i < length (consumers s1)" using i s1 by simp
  have b1: "busy (set_task i t s1) = busy (set_task i t s)" for t
    by (simp add: s1 busy_def set_task_def)
  have u1: "unfinished_tasks s1 = unfinished_tasks s" "queue s1 = queue s" by (simp_all add: s1)
  show ?thesis
  proof (cases "task_done s1")
    case (Inl e)
    with Inr u u1 b1 busy_set_task[OF i, of "Failed e"] show ?thesis
      by (simp add: end_crawling_def counted_def set_task_def)
  next
    case r: (Inr s2)
    then have s2: "s2 = s1\<lparr>unfinished_tasks := unfinished_tasks s1 - 1\<rparr>"
      by (simp add: task_done_def split: if_splits)
    have b2: "busy (set_task i Waiting s2) = busy (set_task i Waiting s)"
      by (simp add: s2 s1 busy_def set_task_def)
    from Inr r u u1 b2 show ?thesis
      by (simp add: end_crawling_def counted_def) (simp add: s2 s1 set_task_def)
  qed
qed

lemma start_crawling_counted:
  assumes c: "counted s" and i: "i < length (consumers s)" and w: "consumers s ! i = Waiting"
    and q: "queue s \<noteq> []"
  shows "counted (start_crawling E i s)"
proof -
  from q obtain l q' where lq: "queue s = l # q'" by (cases "queue s") auto
  let ?s1 = "add_node (s\<lparr>queue := q', consumed := consumed s @ [l]\<rparr>) l"
  have bw: "busy (set_task i Waiting s) = busy s" using busy_split[OF i] w by simp
  have c1: "consumers ?s1 = consumers s" "queue ?s1 = q'"
    "unfinished_tasks ?s1 = unfinished_tasks s" by (simp_all add: add_node_def)
  have b1: "busy (set_task i t ?s1) = busy (set_task i t s)" for t
    by (simp add: busy_def set_task_def add_node_def)
  show ?thesis
  proof (cases "depth l < max_depth E")
    case True
    have "busy (set_task i (Fetching l) (?s1\<lparr>requests := requests ?s1 @ [url l]\<rparr>)) =
        busy (set_task i (Fetching l) s)"
      by (simp add: busy_def set_task_def add_node_def)
    with c lq True bw busy_set_task[OF i, of "Fetching l"] show ?thesis
      by (simp add: start_crawling_def Let_def counted_def) (simp add: set_task_def add_node_def)
  next
    case False
    have "counted (end_crawling i l ?s1)"
    proof (rule end_crawling_counted)
      show "i < length (consumers ?s1)" using i c1 by simp
      show "unfinished_tasks ?s1 = int (length (queue ?s1)) + int (busy (set_task i Waiting ?s1)) + 1"
        using c lq bw b1[of Waiting] c1 by (simp add: counted_def)
    qed
    with lq False show ?thesis by (simp add: start_crawling_def Let_def)
  qed
qed

lemma resume_crawling_counted:
  assumes c: "counted s" and i: "i < length (consumers s)" and w: "consumers s ! i = Fetching l"
  shows "counted (resume_crawling E i l page s)"
proof (cases "fetch_links E (url l) page")
  case (Inl e)
  have "busy (set_task i (Failed e) s) = busy s"
    using busy_set_task[OF i, of "Failed e"] busy_split[OF i] w by simp
  with c Inl show ?thesis by (simp add: resume_crawling_def counted_def) (simp add: set_task_def)
next
  case (Inr ns)
  obtain r t where v: "visit_links E l ns s = (r, t)" by (cases "visit_links E l ns s")
  have ct: "counted t" using visit_links_counted[OF v c] .
  have cs: "consumers t = consumers s" using visit_links_consumers[OF v] .
  have it: "i < length (consumers t)" using i cs by simp
  have bt: "busy t = busy (set_task i Waiting t) + 1" using busy_split[OF it] w cs by simp
  show ?thesis
  proof (cases r)
    case None
    have "counted (end_crawling i l t)"
      using end_crawling_counted[OF it] ct bt by (simp add: counted_def)
    with Inr v None show ?thesis by (simp add: resume_crawling_def)
  next
    case (Some e)
    have "busy (set_task i (Failed e) t) = busy t"
      using busy_set_task[OF it, of "Failed e"] bt by simp
    with ct Inr v Some show ?thesis
      by (simp add: resume_crawling_def counted_def) (simp add: set_task_def)
  qed
qed

lemma reachable_counted: "reachable E u n s \<Longrightarrow> counted s"
proof (induction rule: reachable.induct)
  case seeded
  show ?case by (simp add: crawl_def produce_def empty_state_def counted_def busy_def)
next
  case (later s s')
  from later.hyps(2) later.IH show ?case
    by (cases rule: step.cases) (simp_all add: start_crawling_counted resume_crawling_counted)
qed

section \<open>Example runs\<close>

lemmas run_defs = crawl_def empty_state_def start_crawling_def resume_crawling_def
  end_crawling_def fetch_links_def visit_link_def has_valid_domain_def get_domain_def
  is_relative_url_def ops_defs nx_add_node_def nx_add_edge_def nx_touch_def
  demo_env_def demo_netloc_def demo_urljoin_def demo_match_def Let_def

lemma crawl_1_fields:
  "queue (crawl u 1) = [\<lparr>depth = 0, url = u\<rparr>]" "consumers (crawl u 1) = [Waiting]"
  by (simp_all add: crawl_def empty_state_def produce_def)

lemma run_1_eq:
  "run_1 =
   \<lparr>visited_urls = {}, urls_to_visit = {''http://a/''}, queue = [], unfinished_tasks = 1,
    graph = \<lparr>nodes = [''http://a/'' \<mapsto> Some 0], edges = {}\<rparr>,
    consumers = [Fetching \<lparr>depth = 0, url = ''http://a/''\<rparr>],
    produced = [\<lparr>depth = 0, url = ''http://a/''\<rparr>],
    consumed = [\<lparr>depth = 0, url = ''http://a/''\<rparr>],
    requests = [''http://a/'']\<rparr>"
  by (simp add: run_1_def run_defs)

lemma self_2_eq:
  "self_2 =
   \<lparr>visited_urls = {''http://a/''}, urls_to_visit = {}, queue = [], unfinished_tasks = 0,
    graph = \<lparr>nodes = [''http://a/'' \<mapsto> Some 1], edges = {(''http://a/'', ''http://a/'')}\<rparr>,
    consumers = [Waiting],
    produced = [\<lparr>depth = 0, url = ''http://a/''\<rparr>],
    consumed = [\<lparr>depth = 0, url = ''http://a/''\<rparr>],
    requests = [''http://a/'']\<rparr>"
  by (simp add: self_2_def run_1_eq run_defs)

lemma run_1_reachable: "reachable (demo_env 1) ''http://a/'' 1 run_1"
  unfolding run_1_def
  by (rule reachable.later[OF reachable.seeded], rule step.get) (simp_all add: crawl_1_fields)

lemma self_2_reachable: "reachable (demo_env 1) ''http://a/'' 1 self_2"
  unfolding self_2_def
  by (rule reachable.later[OF run_1_reachable], rule step.fetched) (simp_all add: run_1_eq)

lemma site_2_eq:
  "site_2 =
   \<lparr>visited_urls = {''http://a/''}, urls_to_visit = {''http://a/b'', ''http://a/c''},
    queue = [\<lparr>depth = 1, url = ''http://a/b''\<rparr>, \<lparr>depth = 1, url = ''http://a/c''\<rparr>], unfinished_tasks = 2,
    graph = \<lparr>nodes = [''http://a/'' \<mapsto> Some 0, ''http://a/b'' \<mapsto> Some 1, ''http://a/c'' \<mapsto> Some 1, ''http://o/x'' \<mapsto> Some 1],
             edges = {(''http://a/'', ''http://a/b''), (''http://a/'', ''http://a/c''), (''http://a/'', ''http://o/x'')}\<rparr>,
    consumers = [Waiting],
    produced = [\<lparr>depth = 0, url = ''http://a/''\<rparr>, \<lparr>depth = 1, url = ''http://a/b''\<rparr>, \<lparr>depth = 1, url = ''http://a/c''\<rparr>],
    consumed = [\<lparr>depth = 0, url = ''http://a/''\<rparr>],
    requests = [''http://a/'']\<rparr>"
  by (simp add: site_2_def run_1_eq run_defs numeral_2_eq_2) ((auto simp: fun_eq_iff)?)

lemma site_3_eq:
  "site_3 =
   \<lparr>visited_urls = {''http://a/'', ''http://a/b''}, urls_to_visit = {''http://a/c''},
    queue = [\<lparr>depth = 1, url = ''http://a/c''\<rparr>], unfinished_tasks = 1,
    graph = \<lparr>nodes = [''http://a/'' \<mapsto> Some 0, ''http://a/b'' \<mapsto> Some 1, ''http://a/c'' \<mapsto> Some 1, ''http://o/x'' \<mapsto> Some 1],
             edges = {(''http://a/'', ''http://a/b''), (''http://a/'', ''http://a/c''), (''http://a/'', ''http://o/x'')}\<rparr>,
    consumers = [Waiting],
    produced = [\<lparr>depth = 0, url = ''http://a/''\<rparr>, \<lparr>depth = 1, url = ''http://a/b''\<rparr>, \<lparr>depth = 1, url = ''http://a/c''\<rparr>],
    consumed = [\<lparr>depth = 0, url = ''http://a/''\<rparr>, \<lparr>depth = 1, url = ''http://a/b''\<rparr>],
    requests = [''http://a/'']\<rparr>"
  by (simp add: site_3_def site_2_eq run_defs numeral_2_eq_2) ((auto simp: fun_eq_iff)?)

lemma site_4_eq:
  "site_4 =
   \<lparr>visited_urls = {''http://a/'', ''http://a/b'', ''http://a/c''}, urls_to_visit = {},
    queue = [], unfinished_tasks = 0,
    graph = \<lparr>nodes = [''http://a/'' \<mapsto> Some 0, ''http://a/b'' \<mapsto> Some 1, ''http://a/c'' \<mapsto> Some 1, ''http://o/x'' \<mapsto> Some 1],
             edges = {(''http://a/'', ''http://a/b''), (''http://a/'', ''http://a/c''), (''http://a/'', ''http://o/x'')}\<rparr>,
    consumers = [Waiting],
    produced = [\<lparr>depth = 0, url = ''http://a/''\<rparr>, \<lparr>depth = 1, url = ''http://a/b''\<rparr>, \<lparr>depth = 1, url = ''http://a/c''\<rparr>],
    consumed = [\<lparr>depth = 0, url = ''http://a/''\<rparr>, \<lparr>depth = 1, url = ''http://a/b''\<rparr>, \<lparr>depth = 1, url = ''http://a/c''\<rparr>],
    requests = [''http://a/'']\<rparr>"
  by (simp add: site_4_def site_3_eq run_defs numeral_2_eq_2) ((auto simp: fun_eq_iff)?)

lemma two_1_eq:
  "two_1 =
   \<lparr>visited_urls = {}, urls_to_visit = {''http://a/''},
    queue = [], unfinished_tasks = 1,
    graph = \<lparr>nodes = [''http://a/'' \<mapsto> Some 0],
             edges = {}\<rparr>,
    consumers = [Fetching \<lparr>depth = 0, url = ''http://a/''\<rparr>, Waiting],
    produced = [\<lparr>depth = 0, url = ''http://a/''\<rparr>],
    consumed = [\<lparr>depth = 0, url = ''http://a/''\<rparr>],
    requests = [''http://a/'']\<rparr>"
  by (simp add: two_1_def run_defs numeral_2_eq_2) ((auto simp: fun_eq_iff)?)

lemma two_2_eq:
  "two_2 =
   \<lparr>visited_urls = {''http://a/''}, urls_to_visit = {''http://a/b'', ''http://a/c''},
    queue = [\<lparr>depth = 1, url = ''http://a/b''\<rparr>, \<lparr>depth = 1, url = ''http://a/c''\<rparr>], unfinished_tasks = 2,
    graph = \<lparr>nodes = [''http://a/'' \<mapsto> Some 0, ''http://a/b'' \<mapsto> Some 1, ''http://a/c'' \<mapsto> Some 1],
             edges = {(''http://a/'', ''http://a/b''), (''http://a/'', ''http://a/c'')}\<rparr>,
    consumers = [Waiting, Waiting],
    produced = [\<lparr>depth = 0, url = ''http://a/''\<rparr>, \<lparr>depth = 1, url = ''http://a/b''\<rparr>, \<lparr>depth = 1, url = ''http://a/c''\<rparr>],
    consumed = [\<lparr>depth = 0, url = ''http://a/''\<rparr>],
    requests = [''http://a/'']\<rparr>"
  by (simp add: two_2_def two_1_eq run_defs numeral_2_eq_2) ((auto simp: fun_eq_iff)?)

lemma two_3_eq:
  "two_3 =
   \<lparr>visited_urls = {''http://a/''}, urls_to_visit = {''http://a/b'', ''http://a/c''},
    queue = [\<lparr>depth = 1, url = ''http://a/c''\<rparr>], unfinished_tasks = 2,
    graph = \<lparr>nodes = [''http://a/'' \<mapsto> Some 0, ''http://a/b'' \<mapsto> Some 1, ''http://a/c'' \<mapsto> Some 1],
             edges = {(''http://a/'', ''http://a/b''), (''http://a/'', ''http://a/c'')}\<rparr>,
    consumers = [Fetching \<lparr>depth = 1, url = ''http://a/b''\<rparr>, Waiting],
    produced = [\<lparr>depth = 0, url = ''http://a/''\<rparr>, \<lparr>depth = 1, url = ''http://a/b''\<rparr>, \<lparr>depth = 1, url = ''http://a/c''\<rparr>],
    consumed = [\<lparr>depth = 0, url = ''http://a/''\<rparr>, \<lparr>depth = 1, url = ''http://a/b''\<rparr>],
    requests = [''http://a/'', ''http://a/b'']\<rparr>"
  by (simp add: two_3_def two_2_eq run_defs numeral_2_eq_2) ((auto simp: fun_eq_iff)?)

lemma two_4_eq:
  "two_4 =
   \<lparr>visited_urls = {''http://a/''}, urls_to_visit = {''http://a/b'', ''http://a/c''},
    queue = [], unfinished_tasks = 2,
    graph = \<lparr>nodes = [''http://a/'' \<mapsto> Some 0, ''http://a/b'' \<mapsto> Some 1, ''http://a/c'' \<mapsto> Some 1],
             edges = {(''http://a/'', ''http://a/b''), (''http://a/'', ''http://a/c'')}\<rparr>,
    consumers = [Fetching \<lparr>depth = 1, url = ''http://a/b''\<rparr>, Fetching \<lparr>depth = 1, url = ''http://a/c''\<rparr>],
    produced = [\<lparr>depth = 0, url = ''http://a/''\<rparr>, \<lparr>depth = 1, url = ''http://a/b''\<rparr>, \<lparr>depth = 1, url = ''http://a/c''\<rparr>],
    consumed = [\<lparr>depth = 0, url = ''http://a/''\<rparr>, \<lparr>depth = 1, url = ''http://a/b''\<rparr>, \<lparr>depth = 1, url = ''http://a/c''\<rparr>],
    requests = [''http://a/'', ''http://a/b'', ''http://a/c'']\<rparr>"
  by (simp add: two_4_def two_3_eq run_defs numeral_2_eq_2) ((auto simp: fun_eq_iff)?)

lemma two_5_eq:
  "two_5 =
   \<lparr>visited_urls = {''http://a/'', ''http://a/b''}, urls_to_visit = {''http://a/c'', ''http://a/d''},
    queue = [\<lparr>depth = 2, url = ''http://a/d''\<rparr>], unfinished_tasks = 2,
    graph = \<lparr>nodes = [''http://a/'' \<mapsto> Some 0, ''http://a/b'' \<mapsto> Some 1, ''http://a/c'' \<mapsto> Some 1, ''http://a/d'' \<mapsto> Some 2],
             edges = {(''http://a/'', ''http://a/b''), (''http://a/'', ''http://a/c''), (''http://a/b'', ''http://a/d'')}\<rparr>,
    consumers = [Waiting, Fetching \<lparr>depth = 1, url = ''http://a/c''\<rparr>],
    produced = [\<lparr>depth = 0, url = ''http://a/''\<rparr>, \<lparr>depth = 1, url = ''http://a/b''\<rparr>, \<lparr>depth = 1, url = ''http://a/c''\<rparr>, \<lparr>depth = 2, url = ''http://a/d''\<rparr>],
    consumed = [\<lparr>depth = 0, url = ''http://a/''\<rparr>, \<lparr>depth = 1, url = ''http://a/b''\<rparr>, \<lparr>depth = 1, url = ''http://a/c''\<rparr>],
    requests = [''http://a/'', ''http://a/b'', ''http://a/c'']\<rparr>"
  by (simp add: two_5_def two_4_eq run_defs numeral_2_eq_2) ((auto simp: fun_eq_iff)?)

lemma two_6_eq:
  "two_6 =
   \<lparr>visited_urls = {''http://a/'', ''http://a/b'', ''http://a/c''}, urls_to_visit = {''http://a/d''},
    queue = [\<lparr>depth = 2, url = ''http://a/d''\<rparr>], unfinished_tasks = 1,
    graph = \<lparr>nodes = [''http://a/'' \<mapsto> Some 0, ''http://a/b'' \<mapsto> Some 1, ''http://a/c'' \<mapsto> Some 1, ''http://a/d'' \<mapsto> Some 2],
             edges = {(''http://a/'', ''http://a/b''), (''http://a/'', ''http://a/c''), (''http://a/b'', ''http://a/d''), (''http://a/c'', ''http://a/d'')}\<rparr>,
    consumers = [Waiting, Waiting],
    produced = [\<lparr>depth = 0, url = ''http://a/''\<rparr>, \<lparr>depth = 1, url = ''http://a/b''\<rparr>, \<lparr>depth = 1, url = ''http://a/c''\<rparr>, \<lparr>depth = 2, url = ''http://a/d''\<rparr>],
    consumed = [\<lparr>depth = 0, url = ''http://a/''\<rparr>, \<lparr>depth = 1, url = ''http://a/b''\<rparr>, \<lparr>depth = 1, url = ''http://a/c''\<rparr>],
    requests = [''http://a/'', ''http://a/b'', ''http://a/c'']\<rparr>"
  by (simp add: two_6_def two_5_eq run_defs numeral_2_eq_2) ((auto simp: fun_eq_iff)?)

lemma two_7_eq:
  "two_7 =
   \<lparr>visited_urls = {''http://a/'', ''http://a/b'', ''http://a/c''}, urls_to_visit = {''http://a/d''},
    queue = [], unfinished_tasks = 1,
    graph = \<lparr>nodes = [''http://a/'' \<mapsto> Some 0, ''http://a/b'' \<mapsto> Some 1, ''http://a/c'' \<mapsto> Some 1, ''http://a/d'' \<mapsto> Some 2],
             edges = {(''http://a/'', ''http://a/b''), (''http://a/'', ''http://a/c''), (''http://a/b'', ''http://a/d''), (''http://a/c'', ''http://a/d'')}\<rparr>,
    consumers = [Fetching \<lparr>depth = 2, url = ''http://a/d''\<rparr>, Waiting],
    produced = [\<lparr>depth = 0, url = ''http://a/''\<rparr>, \<lparr>depth = 1, url = ''http://a/b''\<rparr>, \<lparr>depth = 1, url = ''http://a/c''\<rparr>, \<lparr>depth = 2, url = ''http://a/d''\<rparr>],
    consumed = [\<lparr>depth = 0, url = ''http://a/''\<rparr>, \<lparr>depth = 1, url = ''http://a/b''\<rparr>, \<lparr>depth = 1, url = ''http://a/c''\<rparr>, \<lparr>depth = 2, url = ''http://a/d''\<rparr>],
    requests = [''http://a/'', ''http://a/b'', ''http://a/c'', ''http://a/d'']\<rparr>"
  by (simp add: two_7_def two_6_eq run_defs numeral_2_eq_2) ((auto simp: fun_eq_iff)?)

lemma two_8_eq:
  "two_8 =
   \<lparr>visited_urls = {''http://a/'', ''http://a/b'', ''http://a/c'', ''http://a/d''}, urls_to_visit = {},
    queue = [], unfinished_tasks = 0,
    graph = \<lparr>nodes = [''http://a/'' \<mapsto> Some 0, ''http://a/b'' \<mapsto> Some 1, ''http://a/c'' \<mapsto> Some 1, ''http://a/d'' \<mapsto> Some 2],
             edges = {(''http://a/'', ''http://a/b''), (''http://a/'', ''http://a/c''), (''http://a/b'', ''http://a/d''), (''http://a/c'', ''http://a/d'')}\<rparr>,
    consumers = [Waiting, Waiting],
    produced = [\<lparr>depth = 0, url = ''http://a/''\<rparr>, \<lparr>depth = 1, url = ''http://a/b''\<rparr>, \<lparr>depth = 1, url = ''http://a/c''\<rparr>, \<lparr>depth = 2, url = ''http://a/d''\<rparr>],
    consumed = [\<lparr>depth = 0, url = ''http://a/''\<rparr>, \<lparr>depth = 1, url = ''http://a/b''\<rparr>, \<lparr>depth = 1, url = ''http://a/c''\<rparr>, \<lparr>depth = 2, url = ''http://a/d''\<rparr>],
    requests = [''http://a/'', ''http://a/b'', ''http://a/c'', ''http://a/d'']\<rparr>"
  by (simp add: two_8_def two_7_eq run_defs numeral_2_eq_2) ((auto simp: fun_eq_iff)?)

lemma crawl_2_fields:
  "queue (crawl u 2) = [\<lparr>depth = 0, url = u\<rparr>]" "consumers (crawl u 2) = [Waiting, Waiting]"
  by (simp_all add: crawl_def empty_state_def produce_def numeral_2_eq_2)

lemma site_2_reachable: "reachable (demo_env 1) ''http://a/'' 1 site_2"
  unfolding site_2_def
  by (rule reachable.later[OF run_1_reachable], rule step.fetched) (simp_all add: run_1_eq)

lemma site_3_step: "step (demo_env 1) site_2 site_3"
  unfolding site_3_def by (rule step.get) (simp_all add: site_2_eq)

lemma site_4_step: "step (demo_env 1) site_3 site_4"
  unfolding site_4_def by (rule step.get) (simp_all add: site_3_eq)

lemma site_3_reachable: "reachable (demo_env 1) ''http://a/'' 1 site_3"
  by (rule reachable.later[OF site_2_reachable site_3_step])

lemma site_4_reachable: "reachable (demo_env 1) ''http://a/'' 1 site_4"
  by (rule reachable.later[OF site_3_reachable site_4_step])

lemma two_1_reachable: "reachable (demo_env 3) ''http://a/'' 2 two_1"
  unfolding two_1_def
  by (rule reachable.later[OF reachable.seeded], rule step.get) (simp_all add: crawl_2_fields)

lemma two_2_reachable: "reachable (demo_env 3) ''http://a/'' 2 two_2"
  unfolding two_2_def
  by (rule reachable.later[OF two_1_reachable], rule step.fetched) (simp_all add: two_1_eq)

lemma two_3_reachable: "reachable (demo_env 3) ''http://a/'' 2 two_3"
  unfolding two_3_def
  by (rule reachable.later[OF two_2_reachable], rule step.get) (simp_all add: two_2_eq)

lemma two_4_reachable: "reachable (demo_env 3) ''http://a/'' 2 two_4"
  unfolding two_4_def
  by (rule reachable.later[OF two_3_reachable], rule step.get) (simp_all add: two_3_eq)

lemma two_5_reachable: "reachable (demo_env 3) ''http://a/'' 2 two_5"
  unfolding two_5_def
  by (rule reachable.later[OF two_4_reachable], rule step.fetched) (simp_all add: two_4_eq)

lemma two_6_reachable: "reachable (demo_env 3) ''http://a/'' 2 two_6"
  unfolding two_6_def
  by (rule reachable.later[OF two_5_reachable], rule step.fetched) (simp_all add: two_5_eq)

lemma two_7_reachable: "reachable (demo_env 3) ''http://a/'' 2 two_7"
  unfolding two_7_def
  by (rule reachable.later[OF two_6_reachable], rule step.get) (simp_all add: two_6_eq)

lemma two_8_reachable: "reachable (demo_env 3) ''http://a/'' 2 two_8"
  unfolding two_8_def
  by (rule reachable.later[OF two_7_reachable], rule step.fetched) (simp_all add: two_7_eq)

lemma demo_env_fields:
  "max_depth (demo_env d) = d" "allowed_domains (demo_env d) = [''a'']"
  "url_match (demo_env d) = demo_match" "netloc (demo_env d) = demo_netloc"
  by (simp_all add: demo_env_def)

section \<open>What one candidate link does to the graph and to the queue\<close>

lemma visit_link_records:
  assumes "url_match E n"
  shows "nodes (graph (snd (visit_link E l (Some n) s))) n = Some (Some (depth l + 1))"
    and "(url l, n) \<in> edges (graph (snd (visit_link E l (Some n) s)))"
  using assms
  by (auto simp: visit_link_def Let_def add_edge_def add_node_def produce_def nx_add_edge_def
      nx_add_node_def nx_touch_def split: sum.splits option.splits)

lemma visit_link_claims:
  assumes "url_match E n" "has_valid_domain E n = Inr True"
    "n \<notin> visited_urls s" "n \<notin> urls_to_visit s"
  shows "produced (snd (visit_link E l (Some n) s)) = produced s @ [\<lparr>depth = depth l + 1, url = n\<rparr>]"
  using assms
  by (simp add: visit_link_def Let_def add_edge_def add_node_def produce_def
      is_url_visited_def is_url_to_visit_def)

lemma visit_link_claims_not:
  assumes "n \<in> visited_urls s \<or> n \<in> urls_to_visit s"
  shows "produced (snd (visit_link E l (Some n) s)) = produced s"
  using assms
  by (auto simp: visit_link_def Let_def add_edge_def add_node_def produce_def
      is_url_visited_def is_url_to_visit_def split: sum.splits)

lemma joined_queue_empty:
  assumes "counted s" "joined s"
  shows "queue s = []"
  using assms by (cases "queue s") (simp_all add: counted_def joined_def)

section \<open>A consumer that has ended stays ended\<close>

lemma end_crawling_others:
  "length (consumers (end_crawling i l s)) = length (consumers s)"
  "k \<noteq> i \<Longrightarrow> consumers (end_crawling i l s) ! k = consumers s ! k"
  by (auto simp: end_crawling_def mark_visited_def task_done_def set_task_def split: sum.splits)

lemma start_crawling_others:
  "length (consumers (start_crawling E i s)) = length (consumers s)"
  "k \<noteq> i \<Longrightarrow> consumers (start_crawling E i s) ! k = consumers s ! k"
  by (auto simp: start_crawling_def Let_def add_node_def set_task_def end_crawling_others
      split: list.splits)

lemma resume_crawling_others:
  "length (consumers (resume_crawling E i l page s)) = length (consumers s)"
  "k \<noteq> i \<Longrightarrow> consumers (resume_crawling E i l page s) ! k = consumers s ! k"
proof -
  have c: "visit_links E l ns s = (r, t) \<Longrightarrow> consumers t = consumers s" for ns r t
    by (rule visit_links_consumers)
  show "length (consumers (resume_crawling E i l page s)) = length (consumers s)"
    using c by (auto simp: resume_crawling_def set_task_def end_crawling_others
        split: sum.splits prod.splits option.splits)
  show "k \<noteq> i \<Longrightarrow> consumers (resume_crawling E i l page s) ! k = consumers s ! k"
    using c by (auto simp: resume_crawling_def set_task_def end_crawling_others
        split: sum.splits prod.splits option.splits)
qed

lemma step_failed_stays:
  assumes "step E s s'" and "k < length (consumers s)" and "consumers s ! k = Failed e"
  shows "k < length (consumers s') \<and> consumers s' ! k = Failed e"
  using assms
proof (cases rule: step.cases)
  case (get i)
  with assms have "k \<noteq> i" by auto
  with get assms show ?thesis by (simp add: start_crawling_others)
next
  case (fetched i l page)
  with assms have "k \<noteq> i" by auto
  with fetched assms show ?thesis by (simp add: resume_crawling_others)
qed

lemma steps_failed_stay:
  assumes "(step E)\<^sup>*\<^sup>* s s'" and "k < length (consumers s)" and "consumers s ! k = Failed e"
  shows "k < length (consumers s') \<and> consumers s' ! k = Failed e"
  using assms by (induction rule: rtranclp_induct) (auto dest: step_failed_stays)

lemma failed_not_joined:
  assumes c: "counted s" and k: "k < length (consumers s)" and f: "consumers s ! k = Failed e"
  shows "\<not> joined s"
proof -
  have "Failed e \<in> set (filter (\<lambda>t. t \<noteq> Waiting) (consumers s))"
    using k f nth_mem[OF k] by simp
  then have "filter (\<lambda>t. t \<noteq> Waiting) (consumers s) \<noteq> []"
    by (metis empty_iff empty_set)
  then have "0 < busy s" by (simp add: busy_def)
  with c show ?thesis by (simp add: counted_def joined_def)
qed

section \<open>Exceptions in fetch_links and in the loop\<close>

lemma next_links_of_fails:
  assumes "Some h \<in> set hrefs" and "netloc E h = Inl e"
  shows "\<exists>e'. next_links_of E u hrefs = Inl e'"
  using assms(1)
proof (induction hrefs)
  case Nil
  then show ?case by simp
next
  case (Cons x xs)
  show ?case
  proof (cases "next_link_of E u x")
    case (Inl e')
    then show ?thesis by simp
  next
    case (Inr n)
    have "x \<noteq> Some h"
    proof
      assume "x = Some h"
      with assms(2) have "next_link_of E u x = Inl e"
        by (simp add: is_relative_url_def get_domain_def)
      with Inr show False by simp
    qed
    with Cons.prems have "Some h \<in> set xs" by auto
    from Cons.IH[OF this] Inr show ?thesis by auto
  qed
qed

lemma next_links_of_None:
  "next_links_of E u hrefs = Inr ns \<Longrightarrow> None \<in> set hrefs \<Longrightarrow> None \<in> set ns"
proof (induction hrefs arbitrary: ns)
  case Nil
  then show ?case by simp
next
  case (Cons x xs)
  then show ?case
    by (cases x) (auto simp: is_relative_url_def split: sum.splits)
qed

lemma visit_links_None:
  "None \<in> set cs \<Longrightarrow> \<exists>e s'. visit_links E l cs s = (Some e, s')"
proof (induction cs arbitrary: s)
  case Nil
  then show ?case by simp
next
  case (Cons c cs)
  obtain r1 s1 where v: "visit_link E l c s = (r1, s1)" by (cases "visit_link E l c s")
  show ?case
  proof (cases r1)
    case (Some e)
    with v show ?thesis by simp
  next
    case None
    with v have "c \<noteq> None" by (cases c) (auto simp: visit_link_def)
    with Cons.prems have "None \<in> set cs" by auto
    from Cons.IH[OF this, of s1] v None show ?thesis by simp
  qed
qed

lemma failed_fetch_eq:
  "failed_fetch = run_1\<lparr>consumers := [Failed FetchError]\<rparr>"
  by (simp add: failed_fetch_def run_1_eq run_defs)

lemma missing_href_eq:
  "missing_href = run_1\<lparr>consumers := [Failed TypeError]\<rparr>"
  by (simp add: missing_href_def run_1_eq run_defs)

lemma malformed_href_eq:
  "malformed_href = run_1\<lparr>consumers := [Failed ValueError]\<rparr>"
  by (simp add: malformed_href_def run_1_eq run_defs)

lemma failed_fetch_reachable: "reachable (demo_env 1) ''http://a/'' 1 failed_fetch"
  unfolding failed_fetch_def
  by (rule reachable.later[OF run_1_reachable], rule step.fetched) (simp_all add: run_1_eq)

lemma missing_href_reachable: "reachable (demo_env 1) ''http://a/'' 1 missing_href"
  unfolding missing_href_def
  by (rule reachable.later[OF run_1_reachable], rule step.fetched) (simp_all add: run_1_eq)

lemma malformed_href_reachable: "reachable (demo_env 1) ''http://a/'' 1 malformed_href"
  unfolding malformed_href_def
  by (rule reachable.later[OF run_1_reachable], rule step.fetched) (simp_all add: run_1_eq)

section \<open>A depth limit of 0 or less\<close>

lemma replicate_update_same: "(replicate k x)[i := x] = replicate k x"
  by (induction k arbitrary: i) (simp_all split: nat.split)

lemma crawl_fields:
  "queue (crawl u n) = [\<lparr>depth = 0, url = u\<rparr>]"
  "consumers (crawl u n) = replicate (nat n) Waiting"
  "urls_to_visit (crawl u n) = {u}" "visited_urls (crawl u n) = {}"
  "unfinished_tasks (crawl u n) = 1" "requests (crawl u n) = []"
  "graph (crawl u n) = \<lparr>nodes = Map.empty, edges = {}\<rparr>"
  "produced (crawl u n) = [\<lparr>depth = 0, url = u\<rparr>]" "consumed (crawl u n) = []"
  by (simp_all add: crawl_def empty_state_def produce_def)

lemma start_crawling_start_only:
  assumes "max_depth E \<le> 0"
  shows "start_crawling E i (crawl u n) = start_only u n"
  using assms
  by (simp add: start_crawling_def crawl_fields Let_def end_crawling_def mark_visited_def
      task_done_def set_task_def add_node_def nx_add_node_def start_only_def
      replicate_update_same)

lemma reachable_start_only:
  assumes "max_depth E \<le> 0" and "reachable E u n s"
  shows "s = crawl u n \<or> s = start_only u n"
  using assms(2)
proof (induction rule: reachable.induct)
  case seeded
  show ?case by simp
next
  case (later s s')
  from later.hyps(2) show ?case
  proof (cases rule: step.cases)
    case (get i)
    from later.IH show ?thesis
    proof
      assume "s = crawl u n"
      with get assms(1) show ?thesis by (simp add: start_crawling_start_only)
    next
      assume "s = start_only u n"
      with get show ?thesis by (simp add: start_only_def)
    qed
  next
    case (fetched i l page)
    from later.IH have "consumers s = replicate (nat n) Waiting"
      by (auto simp: crawl_fields start_only_def)
    with fetched show ?thesis by simp
  qed
qed

lemma start_only_reachable:
  assumes "max_depth E \<le> 0" and "0 < n"
  shows "reachable E u n (start_only u n)"
proof -
  have "step E (crawl u n) (start_crawling E 0 (crawl u n))"
    using assms(2) by (intro step.get) (simp_all add: crawl_fields)
  with start_crawling_start_only[OF assms(1)] reachable.seeded[of E u n]
  show ?thesis by (metis reachable.later)
qed

section \<open>What the loop over the candidates of a page enqueues\<close>

lemma visit_link_ok_cases:
  assumes "visit_link E l c s = (None, s')"
  obtains (skipped) n where "c = Some n" "\<not> url_match E n" "s' = s"
  | (recorded) n ok where "c = Some n" "url_match E n" "has_valid_domain E n = Inr ok"
      "\<not> (ok \<and> n \<notin> visited_urls s \<and> n \<notin> urls_to_visit s)"
      "s' = add_edge (add_node s \<lparr>depth = depth l + 1, url = n\<rparr>) l \<lparr>depth = depth l + 1, url = n\<rparr>"
  | (claimed) n where "c = Some n" "url_match E n" "has_valid_domain E n = Inr True"
      "n \<notin> visited_urls s" "n \<notin> urls_to_visit s"
      "s' = produce (add_edge (add_node s \<lparr>depth = depth l + 1, url = n\<rparr>) l
             \<lparr>depth = depth l + 1, url = n\<rparr>) \<lparr>depth = depth l + 1, url = n\<rparr>"
proof (cases c)
  case None
  with assms show ?thesis by (simp add: visit_link_def)
next
  case (Some n)
  let ?c = "\<lparr>depth = depth l + 1, url = n\<rparr>"
  let ?s2 = "add_edge (add_node s ?c) l ?c"
  have sets: "visited_urls ?s2 = visited_urls s" "urls_to_visit ?s2 = urls_to_visit s"
    by (simp_all add: add_edge_def add_node_def)
  show ?thesis
  proof (cases "url_match E n")
    case False
    with assms Some have "s' = s" by (simp add: visit_link_def)
    with Some False show ?thesis by (rule skipped)
  next
    case True
    show ?thesis
    proof (cases "has_valid_domain E n")
      case (Inl e)
      with assms Some True show ?thesis by (simp add: visit_link_def Let_def)
    next
      case (Inr ok)
      show ?thesis
      proof (cases "ok \<and> n \<notin> visited_urls s \<and> n \<notin> urls_to_visit s")
        case yes: True
        with assms Some True Inr sets have "s' = produce ?s2 ?c"
          by (simp add: visit_link_def Let_def is_url_visited_def is_url_to_visit_def)
        with Some True Inr yes show ?thesis by (intro claimed[of n]) simp_all
      next
        case no: False
        with assms Some True Inr sets have "s' = ?s2"
          by (auto simp: visit_link_def Let_def is_url_visited_def is_url_to_visit_def)
        with Some True Inr no show ?thesis by (intro recorded[of n ok]) simp_all
      qed
    qed
  qed
qed

lemma accepted_skip:
  assumes "\<not> (url_match E n \<and> has_valid_domain E n = Inr True \<and>
      n \<notin> visited_urls s \<and> n \<notin> urls_to_visit s)"
  shows "accepted E l s (Some n # cs) = accepted E l s cs"
  using assms by (auto simp: accepted_def)

lemma accepted_sets:
  assumes "visited_urls t = visited_urls s" "urls_to_visit t = urls_to_visit s"
  shows "accepted E l t cs = accepted E l s cs"
  using assms by (simp add: accepted_def)

lemma accepted_claim:
  assumes "url_match E n" "has_valid_domain E n = Inr True"
    "n \<notin> visited_urls s" "n \<notin> urls_to_visit s"
    "visited_urls t = visited_urls s" "urls_to_visit t = insert n (urls_to_visit s)"
  shows "accepted E l s (Some n # cs) = insert \<lparr>depth = depth l + 1, url = n\<rparr> (accepted E l t cs)"
    and "\<lparr>depth = depth l + 1, url = n\<rparr> \<notin> accepted E l t cs"
    and "n \<notin> url ` accepted E l t cs"
  using assms by (auto simp: accepted_def)

lemma candidate_edges_Cons:
  "{(u, n) |n. Some n \<in> set (Some m # cs) \<and> P n} =
   (if P m then {(u, m)} else {}) \<union> {(u, n) |n. Some n \<in> set cs \<and> P n}"
  by auto

lemma visit_links_enqueues:
  assumes "visit_links E l cs s = (None, s')"
  shows "\<exists>new. enqueued_by E l cs s s' new"
  using assms
proof (induction cs arbitrary: s)
  case Nil
  then have "enqueued_by E l [] s s' []" by (simp add: enqueued_by_def accepted_def)
  then show ?case ..
next
  case (Cons c cs)
  obtain r1 s1 where v: "visit_link E l c s = (r1, s1)" by (cases "visit_link E l c s")
  with Cons.prems have r1: "r1 = None" by (cases r1) auto
  with v Cons.prems have rest: "visit_links E l cs s1 = (None, s')" by simp
  from Cons.IH[OF rest] obtain new where n: "enqueued_by E l cs s1 s' new" ..
  then have np: "produced s' = produced s1 @ new" and nq: "queue s' = queue s1 @ new"
    and nd: "distinct (map url new)" and ns: "set new = accepted E l s1 cs"
    and nv: "visited_urls s' = visited_urls s1"
    and nt: "urls_to_visit s' = urls_to_visit s1 \<union> url ` set new"
    and ne: "edges (graph s') =
      edges (graph s1) \<union> {(url l, n) |n. Some n \<in> set cs \<and> url_match E n}"
    by (simp_all add: enqueued_by_def)
  from v[unfolded r1] show ?case
  proof (cases rule: visit_link_ok_cases)
    case (skipped m)
    have a: "accepted E l s (Some m # cs) = accepted E l s cs"
      using skipped(2) by (intro accepted_skip) simp
    have e: "{(url l, n) |n. Some n \<in> set (Some m # cs) \<and> url_match E n} =
        {(url l, n) |n. Some n \<in> set cs \<and> url_match E n}"
      using skipped(2) by auto
    have "enqueued_by E l (c # cs) s s' new"
      unfolding enqueued_by_def skipped(1) a e
      using np nq nd ns nv nt ne unfolding skipped(3) by simp
    then show ?thesis ..
  next
    case (recorded m ok)
    have s1: "visited_urls s1 = visited_urls s" "urls_to_visit s1 = urls_to_visit s"
      "produced s1 = produced s" "queue s1 = queue s"
      "edges (graph s1) = insert (url l, m) (edges (graph s))"
      by (simp_all add: recorded add_edge_def add_node_def nx_add_edge_def nx_add_node_def)
    have a: "accepted E l s (Some m # cs) = accepted E l s cs"
      using recorded(3,4) by (intro accepted_skip) auto
    have a1: "accepted E l s1 cs = accepted E l s cs" using s1(1,2) by (rule accepted_sets)
    have e: "{(url l, n) |n. Some n \<in> set (Some m # cs) \<and> url_match E n} =
        insert (url l, m) {(url l, n) |n. Some n \<in> set cs \<and> url_match E n}"
      using recorded(2) by auto
    have "enqueued_by E l (c # cs) s s' new"
      unfolding enqueued_by_def recorded(1) a e
      using np nq nd ns nv nt ne unfolding s1 a1 by simp
    then show ?thesis ..
  next
    case (claimed m)
    let ?c = "\<lparr>depth = depth l + 1, url = m\<rparr>"
    have s1: "visited_urls s1 = visited_urls s" "urls_to_visit s1 = insert m (urls_to_visit s)"
      "produced s1 = produced s @ [?c]" "queue s1 = queue s @ [?c]"
      "edges (graph s1) = insert (url l, m) (edges (graph s))"
      by (simp_all add: claimed produce_def add_edge_def add_node_def nx_add_edge_def
          nx_add_node_def)
    note a = accepted_claim[OF claimed(2,3,4,5) s1(1,2), of l cs]
    have e: "{(url l, n) |n. Some n \<in> set (Some m # cs) \<and> url_match E n} =
        insert (url l, m) {(url l, n) |n. Some n \<in> set cs \<and> url_match E n}"
      using claimed(2) by auto
    have "enqueued_by E l (c # cs) s s' (?c # new)"
      unfolding enqueued_by_def claimed(1) e
    proof (intro conjI)
      show "produced s' = produced s @ ?c # new" using np s1(3) by simp
      show "queue s' = queue s @ ?c # new" using nq s1(4) by simp
      show "distinct (map url (?c # new))" using nd a(3) ns by simp
      show "set (?c # new) = accepted E l s (Some m # cs)" using a(1) ns by simp
      show "visited_urls s' = visited_urls s" using nv s1(1) by simp
      show "urls_to_visit s' = urls_to_visit s \<union> url ` set (?c # new)"
        using nt s1(2) by simp
      show "edges (graph s') =
          edges (graph s) \<union> insert (url l, m) {(url l, n) |n. Some n \<in> set cs \<and> url_match E n}"
        using ne s1(5) by simp
    qed
    then show ?thesis ..
  qed
qed

lemma end_crawling_keeps:
  "produced (end_crawling i l s) = produced s" "queue (end_crawling i l s) = queue s"
  "graph (end_crawling i l s) = graph s"
  by (simp_all add: end_crawling_def mark_visited_def task_done_def set_task_def)

lemma resume_crawling_waiting:
  assumes i: "i < length (consumers s)"
    and w: "consumers (resume_crawling E i l page s) ! i = Waiting"
  obtains ns t where "fetch_links E (url l) page = Inr ns" "visit_links E l ns s = (None, t)"
    "resume_crawling E i l page s = end_crawling i l t"
proof (cases "fetch_links E (url l) page")
  case (Inl e)
  with i w show ?thesis by (simp add: resume_crawling_def set_task_def)
next
  case (Inr ns)
  obtain r t where v: "visit_links E l ns s = (r, t)" by (cases "visit_links E l ns s")
  have c: "consumers t = consumers s" using visit_links_consumers[OF v] .
  show ?thesis
  proof (cases r)
    case None
    with Inr v that show ?thesis by (simp add: resume_crawling_def)
  next
    case (Some e)
    with Inr v i w c show ?thesis by (simp add: resume_crawling_def set_task_def)
  qed
qed

lemma resume_crawling_enqueues:
  assumes i: "i < length (consumers s)"
    and w: "consumers (resume_crawling E i l page s) ! i = Waiting"
  shows "\<exists>ns new. fetch_links E (url l) page = Inr ns \<and>
           produced (resume_crawling E i l page s) = produced s @ new \<and>
           queue (resume_crawling E i l page s) = queue s @ new \<and>
           distinct (map url new) \<and> set new = accepted E l s ns \<and>
           edges (graph (resume_crawling E i l page s)) =
             edges (graph s) \<union> {(url l, n) |n. Some n \<in> set ns \<and> url_match E n}"
proof -
  from i w obtain ns t where f: "fetch_links E (url l) page = Inr ns"
    and v: "visit_links E l ns s = (None, t)"
    and r: "resume_crawling E i l page s = end_crawling i l t"
    by (rule resume_crawling_waiting)
  from visit_links_enqueues[OF v] obtain new where n: "enqueued_by E l ns s t new" ..
  from n have "produced t = produced s @ new" "queue t = queue s @ new"
    "distinct (map url new)" "set new = accepted E l s ns"
    "edges (graph t) = edges (graph s) \<union> {(url l, n) |n. Some n \<in> set ns \<and> url_match E n}"
    by (simp_all add: enqueued_by_def)
  with f show ?thesis unfolding r end_crawling_keeps by (intro exI[of _ ns] exI[of _ new]) simp
qed

section \<open>Claims\<close>

text \<open>
  C1, as the code has it. When the request of a consumer fails, the exception ends the
  consumer: the URL of its link stays in \<^verbatim>\<open>urls_to_visit\<close> and is not added to
  \<^verbatim>\<open>visited_urls\<close>, \<^verbatim>\<open>task_done\<close> is not called, and nothing else changes. The consumer
  stays ended, and \<^verbatim>\<open>queue.join()\<close> does not return in any later state.
\<close>

theorem fetch_error_ends_consumer:
  assumes "reachable E start_url parallelism s"
    and "i < length (consumers s)" and "consumers s ! i = Fetching l"
  shows "resume_crawling E i l (Inl e) s = set_task i (Failed e) s \<and>
         consumers (resume_crawling E i l (Inl e) s) ! i = Failed e \<and>
         visited_urls (resume_crawling E i l (Inl e) s) = visited_urls s \<and>
         urls_to_visit (resume_crawling E i l (Inl e) s) = urls_to_visit s \<and>
         unfinished_tasks (resume_crawling E i l (Inl e) s) = unfinished_tasks s \<and>
         (\<forall>s'. (step E)\<^sup>*\<^sup>* (resume_crawling E i l (Inl e) s) s' \<longrightarrow>
               consumers s' ! i = Failed e \<and> \<not> joined s')"
proof -
  let ?t = "resume_crawling E i l (Inl e) s"
  have eq: "?t = set_task i (Failed e) s" by (simp add: resume_crawling_def fetch_links_def)
  have f: "i < length (consumers ?t)" "consumers ?t ! i = Failed e"
    using assms(2) by (simp_all add: eq set_task_def)
  have st: "step E s ?t" using assms(2,3) by (rule step.fetched)
  have rt: "reachable E start_url parallelism ?t" using assms(1) st by (rule reachable.later)
  have later: "consumers s' ! i = Failed e \<and> \<not> joined s'" if "(step E)\<^sup>*\<^sup>* ?t s'" for s'
  proof -
    from steps_failed_stay[OF that f]
    have k: "i < length (consumers s')" "consumers s' ! i = Failed e" by simp_all
    have "counted s'" using reachable_counted[OF steps_reachable[OF that rt]] .
    from failed_not_joined[OF this k] k show ?thesis by simp
  qed
  have "visited_urls ?t = visited_urls s" "urls_to_visit ?t = urls_to_visit s"
    "unfinished_tasks ?t = unfinished_tasks s" by (simp_all add: eq set_task_def)
  with eq f later show ?thesis by blast
qed

theorem fetch_error_ends_consumer_witness:
  "consumers run_1 ! 0 = Fetching \<lparr>depth = 0, url = ''http://a/''\<rparr> \<and>
   consumers failed_fetch ! 0 = Failed FetchError \<and>
   visited_urls failed_fetch = visited_urls run_1 \<and>
   urls_to_visit failed_fetch = urls_to_visit run_1 \<and>
   unfinished_tasks failed_fetch = unfinished_tasks run_1 \<and>
   \<not> joined failed_fetch"
proof -
  have i: "0 < length (consumers run_1)"
    and c: "consumers run_1 ! 0 = Fetching \<lparr>depth = 0, url = ''http://a/''\<rparr>"
    by (simp_all add: run_1_eq)
  from fetch_error_ends_consumer[OF run_1_reachable i c, of FetchError] c
  show ?thesis unfolding failed_fetch_def by blast
qed

text \<open>
  The claim fails when the request for the start page fails: the consumer has ended with
  the exception, and the start URL is still in \<^verbatim>\<open>urls_to_visit\<close> and not in
  \<^verbatim>\<open>visited_urls\<close>, with its task unfinished.
\<close>

theorem fetch_error_counterexample:
  "reachable (demo_env 1) ''http://a/'' 1 failed_fetch \<and>
   consumers failed_fetch = [Failed FetchError] \<and>
   ''http://a/'' \<in> urls_to_visit failed_fetch \<and>
   ''http://a/'' \<notin> visited_urls failed_fetch \<and>
   unfinished_tasks failed_fetch = 1 \<and>
   \<not> joined failed_fetch"
  using failed_fetch_reachable by (simp add: failed_fetch_eq run_1_eq joined_def)

text \<open>
  C2. In every state a crawl can reach, no URL is in both \<^verbatim>\<open>visited_urls\<close> and
  \<^verbatim>\<open>urls_to_visit\<close>; and a URL of \<^verbatim>\<open>visited_urls\<close> stays there and is in \<^verbatim>\<open>urls_to_visit\<close>
  in no later state.
\<close>

theorem frontier_sets_disjoint:
  assumes "reachable E start_url parallelism s"
  shows "visited_urls s \<inter> urls_to_visit s = {} \<and>
         (\<forall>s'. (step E)\<^sup>*\<^sup>* s s' \<longrightarrow>
            visited_urls s \<subseteq> visited_urls s' \<and> visited_urls s \<inter> urls_to_visit s' = {})"
proof (intro conjI allI impI)
  show "visited_urls s \<inter> urls_to_visit s = {}" using reachable_disjoint[OF assms] .
next
  fix s' assume st: "(step E)\<^sup>*\<^sup>* s s'"
  show m: "visited_urls s \<subseteq> visited_urls s'" using steps_visited_mono[OF st] .
  have "visited_urls s' \<inter> urls_to_visit s' = {}"
    using reachable_disjoint[OF steps_reachable[OF st assms]] .
  with m show "visited_urls s \<inter> urls_to_visit s' = {}" by blast
qed

theorem frontier_sets_disjoint_witness:
  "visited_urls site_3 \<inter> urls_to_visit site_3 = {} \<and>
   visited_urls site_3 \<subseteq> visited_urls site_4 \<and>
   visited_urls site_3 \<inter> urls_to_visit site_4 = {} \<and>
   visited_urls site_3 = {''http://a/'', ''http://a/b''} \<and>
   urls_to_visit site_3 = {''http://a/c''}"
proof -
  have "(step (demo_env 1))\<^sup>*\<^sup>* site_3 site_4" using site_4_step by (rule r_into_rtranclp)
  with frontier_sets_disjoint[OF site_3_reachable] show ?thesis by (simp add: site_3_eq)
qed

text \<open>
  C3, as the code has it. In every state a crawl can reach, the URLs given to the queue are
  all different, the links taken from the queue are the first of those given to it, in
  order, and the requests sent are those for the links taken whose depth is below
  \<open>max_depth\<close>: a URL is enqueued, dequeued and fetched at most once, and a link at depth
  \<open>max_depth\<close> is dequeued but not fetched. When \<^verbatim>\<open>queue.join()\<close> returns, every link
  given to the queue has been taken from it. When a consumer has fetched a page and is back
  at \<^verbatim>\<open>queue.get\<close>, with no exception, the links it has put in the queue are, each once
  and at the depth of the page plus one, exactly the candidates of the page that match the
  pattern, are in an allowed domain and were in neither set when the page arrived; and the
  edges it has added are those from the page to every candidate that matches the pattern.
  For one candidate: one that matches the pattern, is in an allowed domain and is in
  neither set is enqueued; one that is in one of the sets is not; either way the edge from
  the parent is recorded.
\<close>

theorem each_url_claimed_at_most_once:
  assumes "reachable E start_url parallelism s"
  shows "distinct (map url (produced s)) \<and>
         produced s = consumed s @ queue s \<and>
         requests s = map url (filter (\<lambda>l. depth l < max_depth E) (consumed s)) \<and>
         (joined s \<longrightarrow> consumed s = produced s) \<and>
         (\<forall>i l page.
            i < length (consumers s) \<and> consumers s ! i = Fetching l \<and>
            consumers (resume_crawling E i l page s) ! i = Waiting \<longrightarrow>
            (\<exists>ns new.
               fetch_links E (url l) page = Inr ns \<and>
               produced (resume_crawling E i l page s) = produced s @ new \<and>
               queue (resume_crawling E i l page s) = queue s @ new \<and>
               distinct (map url new) \<and>
               set new =
                 (\<lambda>n. \<lparr>depth = depth l + 1, url = n\<rparr>) `
                   {n. Some n \<in> set ns \<and> url_match E n \<and> has_valid_domain E n = Inr True \<and>
                       n \<notin> visited_urls s \<and> n \<notin> urls_to_visit s} \<and>
               edges (graph (resume_crawling E i l page s)) =
                 edges (graph s) \<union> {(url l, n) |n. Some n \<in> set ns \<and> url_match E n})) \<and>
         (\<forall>l n. url_match E n \<and> has_valid_domain E n = Inr True \<and>
                n \<notin> visited_urls s \<and> n \<notin> urls_to_visit s \<longrightarrow>
            produced (snd (visit_link E l (Some n) s)) =
              produced s @ [\<lparr>depth = depth l + 1, url = n\<rparr>]) \<and>
         (\<forall>l n. n \<in> visited_urls s \<or> n \<in> urls_to_visit s \<longrightarrow>
            produced (snd (visit_link E l (Some n) s)) = produced s) \<and>
         (\<forall>l n. url_match E n \<longrightarrow> (url l, n) \<in> edges (graph (snd (visit_link E l (Some n) s))))"
proof -
  have d: "distinct (map url (produced s))"
    using reachable_claimed_once[OF assms] by (simp add: claimed_once_def)
  have f: "produced s = consumed s @ queue s"
    using reachable_fifo[OF assms] by (simp add: fifo_def)
  have r: "requests s = map url (filter (\<lambda>l. depth l < max_depth E) (consumed s))"
    using reachable_requested[OF assms] by (simp add: requested_def)
  have j: "joined s \<longrightarrow> consumed s = produced s"
    using joined_queue_empty[OF reachable_counted[OF assms]] f by simp
  have p: "\<forall>i l page.
      i < length (consumers s) \<and> consumers s ! i = Fetching l \<and>
      consumers (resume_crawling E i l page s) ! i = Waiting \<longrightarrow>
      (\<exists>ns new.
         fetch_links E (url l) page = Inr ns \<and>
         produced (resume_crawling E i l page s) = produced s @ new \<and>
         queue (resume_crawling E i l page s) = queue s @ new \<and>
         distinct (map url new) \<and>
         set new =
           (\<lambda>n. \<lparr>depth = depth l + 1, url = n\<rparr>) `
             {n. Some n \<in> set ns \<and> url_match E n \<and> has_valid_domain E n = Inr True \<and>
                 n \<notin> visited_urls s \<and> n \<notin> urls_to_visit s} \<and>
         edges (graph (resume_crawling E i l page s)) =
           edges (graph s) \<union> {(url l, n) |n. Some n \<in> set ns \<and> url_match E n})"
    using resume_crawling_enqueues[of _ s E] unfolding accepted_def by blast
  have v1: "\<forall>l n. url_match E n \<and> has_valid_domain E n = Inr True \<and>
                n \<notin> visited_urls s \<and> n \<notin> urls_to_visit s \<longrightarrow>
            produced (snd (visit_link E l (Some n) s)) =
              produced s @ [\<lparr>depth = depth l + 1, url = n\<rparr>]"
    using visit_link_claims by blast
  have v2: "\<forall>l n. n \<in> visited_urls s \<or> n \<in> urls_to_visit s \<longrightarrow>
            produced (snd (visit_link E l (Some n) s)) = produced s"
    using visit_link_claims_not by blast
  have v3: "\<forall>l n. url_match E n \<longrightarrow>
      (url l, n) \<in> edges (graph (snd (visit_link E l (Some n) s)))"
    using visit_link_records(2) by blast
  from d f r j p v1 v2 v3 show ?thesis by (intro conjI)
qed

theorem each_url_claimed_at_most_once_witness:
  "distinct (map url (produced two_8)) \<and>
   joined two_8 \<and> consumed two_8 = produced two_8 \<and>
   \<lparr>depth = 2, url = ''http://a/d''\<rparr> \<in> set (produced two_8) \<and>
   requests two_8 = [''http://a/'', ''http://a/b'', ''http://a/c'', ''http://a/d''] \<and>
   nodes (graph two_8) ''http://a/d'' = Some (Some 2) \<and>
   {p. (p, ''http://a/d'') \<in> edges (graph two_8)} = {''http://a/b'', ''http://a/c''} \<and>
   consumers two_4 ! 0 = Fetching \<lparr>depth = 1, url = ''http://a/b''\<rparr> \<and>
   consumers two_5 ! 0 = Waiting \<and>
   (\<exists>ns new. fetch_links (demo_env 3) ''http://a/b'' (Inr [Some ''/d'']) = Inr ns \<and>
      produced two_5 = produced two_4 @ new \<and> queue two_5 = queue two_4 @ new \<and>
      distinct (map url new) \<and>
      set new = (\<lambda>n. \<lparr>depth = 2, url = n\<rparr>) `
        {n. Some n \<in> set ns \<and> url_match (demo_env 3) n \<and>
            has_valid_domain (demo_env 3) n = Inr True \<and>
            n \<notin> visited_urls two_4 \<and> n \<notin> urls_to_visit two_4}) \<and>
   produced two_5 = produced two_4 @ [\<lparr>depth = 2, url = ''http://a/d''\<rparr>] \<and>
   produced two_6 = produced two_5"
proof -
  have j: "joined two_8" by (simp add: two_8_eq joined_def)
  have e: "{p. (p, ''http://a/d'') \<in> edges (graph two_8)} = {''http://a/b'', ''http://a/c''}"
    by (auto simp: two_8_eq)
  from each_url_claimed_at_most_once[OF two_8_reachable] j
  have a: "distinct (map url (produced two_8)) \<and> consumed two_8 = produced two_8" by blast
  have h: "0 < length (consumers two_4) \<and>
      consumers two_4 ! 0 = Fetching \<lparr>depth = 1, url = ''http://a/b''\<rparr> \<and>
      consumers (resume_crawling (demo_env 3) 0 \<lparr>depth = 1, url = ''http://a/b''\<rparr>
        (Inr [Some ''/d'']) two_4) ! 0 = Waiting"
    using two_5_eq by (simp add: two_4_eq two_5_def)
  from each_url_claimed_at_most_once[OF two_4_reachable] h
  have "\<exists>ns new.
      fetch_links (demo_env 3) (url \<lparr>depth = 1, url = ''http://a/b''\<rparr>) (Inr [Some ''/d'']) = Inr ns \<and>
      produced (resume_crawling (demo_env 3) 0 \<lparr>depth = 1, url = ''http://a/b''\<rparr>
        (Inr [Some ''/d'']) two_4) = produced two_4 @ new \<and>
      queue (resume_crawling (demo_env 3) 0 \<lparr>depth = 1, url = ''http://a/b''\<rparr>
        (Inr [Some ''/d'']) two_4) = queue two_4 @ new \<and>
      distinct (map url new) \<and>
      set new = (\<lambda>n. \<lparr>depth = depth \<lparr>depth = 1, url = ''http://a/b''\<rparr> + 1, url = n\<rparr>) `
        {n. Some n \<in> set ns \<and> url_match (demo_env 3) n \<and>
            has_valid_domain (demo_env 3) n = Inr True \<and>
            n \<notin> visited_urls two_4 \<and> n \<notin> urls_to_visit two_4} \<and>
      edges (graph (resume_crawling (demo_env 3) 0 \<lparr>depth = 1, url = ''http://a/b''\<rparr>
        (Inr [Some ''/d'']) two_4)) =
        edges (graph two_4) \<union>
          {(url \<lparr>depth = 1, url = ''http://a/b''\<rparr>, n) |n. Some n \<in> set ns \<and> url_match (demo_env 3) n}"
    by blast
  then have b: "\<exists>ns new. fetch_links (demo_env 3) ''http://a/b'' (Inr [Some ''/d'']) = Inr ns \<and>
      produced two_5 = produced two_4 @ new \<and> queue two_5 = queue two_4 @ new \<and>
      distinct (map url new) \<and>
      set new = (\<lambda>n. \<lparr>depth = 2, url = n\<rparr>) `
        {n. Some n \<in> set ns \<and> url_match (demo_env 3) n \<and>
            has_valid_domain (demo_env 3) n = Inr True \<and>
            n \<notin> visited_urls two_4 \<and> n \<notin> urls_to_visit two_4}"
    unfolding two_5_def[symmetric] by simp blast
  have c: "consumers two_4 ! 0 = Fetching \<lparr>depth = 1, url = ''http://a/b''\<rparr>"
    "consumers two_5 ! 0 = Waiting"
    "\<lparr>depth = 2, url = ''http://a/d''\<rparr> \<in> set (produced two_8)"
    "requests two_8 = [''http://a/'', ''http://a/b'', ''http://a/c'', ''http://a/d'']"
    "nodes (graph two_8) ''http://a/d'' = Some (Some 2)"
    "produced two_5 = produced two_4 @ [\<lparr>depth = 2, url = ''http://a/d''\<rparr>]"
    "produced two_6 = produced two_5"
    by (simp_all add: two_8_eq two_4_eq two_5_eq two_6_eq)
  from a j e b c show ?thesis by (intro conjI) simp_all
qed

text \<open>
  The claim fails for a link at the depth limit: with \<open>max_depth = 1\<close> the URL
  \<^verbatim>\<open>http://a/b\<close>, found on the start page, matches the pattern, is in the allowed domain and
  is new; it is enqueued and dequeued, and the run ends without a request for it.
\<close>

theorem each_url_fetched_once_counterexample:
  "reachable (demo_env 1) ''http://a/'' 1 site_4 \<and> joined site_4 \<and>
   url_match (demo_env 1) ''http://a/b'' \<and>
   has_valid_domain (demo_env 1) ''http://a/b'' = Inr True \<and>
   ''http://a/b'' \<notin> visited_urls run_1 \<and> ''http://a/b'' \<notin> urls_to_visit run_1 \<and>
   \<lparr>depth = 1, url = ''http://a/b''\<rparr> \<in> set (produced site_4) \<and>
   \<lparr>depth = 1, url = ''http://a/b''\<rparr> \<in> set (consumed site_4) \<and>
   ''http://a/b'' \<notin> set (requests site_4)"
  using site_4_reachable
  by (simp add: site_4_eq run_1_eq joined_def has_valid_domain_def get_domain_def
      demo_env_fields demo_match_def demo_netloc_def)

text \<open>
  C4, as the code has it. \<^verbatim>\<open>add_node\<close> stores the depth of the link it is given, whether
  or not the graph has a node for the URL: the depth of the latest addition is the one
  recorded, and no other node changes.
\<close>

theorem add_node_last_depth:
  "nodes (graph (add_node s l)) (url l) = Some (Some (depth l)) \<and>
   (\<forall>u. u \<noteq> url l \<longrightarrow> nodes (graph (add_node s l)) u = nodes (graph s) u)"
  by (simp add: add_node_def nx_add_node_def)

theorem add_node_last_depth_witness:
  "nodes (graph (add_node run_1 \<lparr>depth = 1, url = ''http://a/''\<rparr>)) ''http://a/'' = Some (Some 1) \<and>
   nodes (graph (add_node run_1 \<lparr>depth = 1, url = ''http://b/''\<rparr>)) ''http://a/'' = Some (Some 0)"
  using add_node_last_depth[of run_1 "\<lparr>depth = 1, url = ''http://a/''\<rparr>"]
    add_node_last_depth[of run_1 "\<lparr>depth = 1, url = ''http://b/''\<rparr>"]
  by (simp add: run_1_eq)

text \<open>
  The claim fails on a page that links to itself: the start URL is first recorded at
  depth 0, and the run then records it again at depth 1.
\<close>

theorem add_node_first_depth_counterexample:
  "reachable (demo_env 1) ''http://a/'' 1 run_1 \<and>
   nodes (graph run_1) ''http://a/'' = Some (Some 0) \<and>
   reachable (demo_env 1) ''http://a/'' 1 self_2 \<and>
   nodes (graph self_2) ''http://a/'' = Some (Some 1)"
  using run_1_reachable self_2_reachable by (simp add: run_1_eq self_2_eq)

text \<open>
  C5, for a depth limit that is not negative. In every state a crawl can reach, every node
  of the graph has a depth attribute, and it is at most \<open>max_depth\<close>: a consumer fetches
  only links whose depth is below \<open>max_depth\<close>, and a candidate link that matches the
  pattern is recorded at the depth of its parent plus one.
\<close>

theorem node_depth_within_limit:
  assumes "reachable E start_url parallelism s" and "0 \<le> max_depth E"
  shows "(\<forall>u a. nodes (graph s) u = Some a \<longrightarrow> (\<exists>d. a = Some d \<and> d \<le> max_depth E)) \<and>
         (\<forall>l. Fetching l \<in> set (consumers s) \<longrightarrow> depth l < max_depth E) \<and>
         (\<forall>l n t. url_match E n \<longrightarrow>
            nodes (graph (snd (visit_link E l (Some n) t))) n = Some (Some (depth l + 1)))"
  using reachable_depth_bounded[OF assms] visit_link_records(1)
  unfolding depth_bounded_def by blast

theorem node_depth_within_limit_witness:
  "0 \<le> max_depth (demo_env 1) \<and>
   nodes (graph site_4) ''http://o/x'' = Some (Some 1) \<and>
   (\<exists>d. Some (1::int) = Some d \<and> d \<le> max_depth (demo_env 1))"
proof -
  have m: "0 \<le> max_depth (demo_env 1)" by (simp add: demo_env_fields)
  have n: "nodes (graph site_4) ''http://o/x'' = Some (Some 1)" by (simp add: site_4_eq)
  from node_depth_within_limit[OF site_4_reachable m] n m show ?thesis by blast
qed

text \<open>
  The claim fails with a negative depth limit: with \<open>max_depth = -1\<close> the start URL is
  still recorded, at depth 0, which is above the limit.
\<close>

theorem node_depth_within_limit_counterexample:
  "reachable (demo_env (- 1)) ''http://a/'' 1 (start_crawling (demo_env (- 1)) 0 (crawl ''http://a/'' 1)) \<and>
   joined (start_crawling (demo_env (- 1)) 0 (crawl ''http://a/'' 1)) \<and>
   nodes (graph (start_crawling (demo_env (- 1)) 0 (crawl ''http://a/'' 1))) ''http://a/'' = Some (Some 0) \<and>
   max_depth (demo_env (- 1)) < 0"
proof -
  have "reachable (demo_env (- 1)) ''http://a/'' 1 (start_crawling (demo_env (- 1)) 0 (crawl ''http://a/'' 1))"
    by (rule reachable.later[OF reachable.seeded], rule step.get) (simp_all add: crawl_1_fields)
  then show ?thesis by (simp add: joined_def run_defs)
qed

text \<open>
  C6, as the code has it. A page with an \<^verbatim>\<open>href\<close> that \<^verbatim>\<open>urlparse\<close> rejects makes
  \<^verbatim>\<open>fetch_links\<close> raise: the consumer ends with an exception and nothing else changes, so
  no link of the page is recorded or enqueued. A page with a tag without \<^verbatim>\<open>href\<close> makes
  the consumer end with an exception too (the \<^verbatim>\<open>TypeError\<close> of \<^verbatim>\<open>re.match\<close>, unless
  another exception came first). In both cases the URL of the page is not added to
  \<^verbatim>\<open>visited_urls\<close>.
\<close>

theorem unparsable_href_ends_consumer:
  assumes "i < length (consumers s)"
  shows "(\<forall>h e. Some h \<in> set hrefs \<and> netloc E h = Inl e \<longrightarrow>
            (\<exists>e'. resume_crawling E i l (Inr hrefs) s = set_task i (Failed e') s)) \<and>
         (None \<in> set hrefs \<longrightarrow>
            (\<exists>e'. consumers (resume_crawling E i l (Inr hrefs) s) ! i = Failed e') \<and>
            visited_urls (resume_crawling E i l (Inr hrefs) s) = visited_urls s) \<and>
         resume_crawling E i l (Inr [None]) s = set_task i (Failed TypeError) s"
proof (intro conjI allI impI)
  fix h e assume "Some h \<in> set hrefs \<and> netloc E h = Inl e"
  then obtain e' where "next_links_of E (url l) hrefs = Inl e'"
    using next_links_of_fails by blast
  then have "resume_crawling E i l (Inr hrefs) s = set_task i (Failed e') s"
    by (simp add: resume_crawling_def fetch_links_def)
  then show "\<exists>e'. resume_crawling E i l (Inr hrefs) s = set_task i (Failed e') s" ..
next
  assume n: "None \<in> set hrefs"
  have "(\<exists>e'. consumers (resume_crawling E i l (Inr hrefs) s) ! i = Failed e') \<and>
      visited_urls (resume_crawling E i l (Inr hrefs) s) = visited_urls s"
  proof (cases "next_links_of E (url l) hrefs")
    case (Inl e')
    with assms show ?thesis by (simp add: resume_crawling_def fetch_links_def set_task_def)
  next
    case (Inr ns)
    from next_links_of_None[OF Inr n] obtain e' s' where v: "visit_links E l ns s = (Some e', s')"
      using visit_links_None by blast
    have "consumers s' = consumers s" "visited_urls s' = visited_urls s"
      using visit_links_consumers[OF v] visit_links_visited[OF v] by simp_all
    with Inr v assms show ?thesis by (simp add: resume_crawling_def fetch_links_def set_task_def)
  qed
  then show "\<exists>e'. consumers (resume_crawling E i l (Inr hrefs) s) ! i = Failed e'"
    and "visited_urls (resume_crawling E i l (Inr hrefs) s) = visited_urls s" by simp_all
next
  show "resume_crawling E i l (Inr [None]) s = set_task i (Failed TypeError) s"
    by (simp add: resume_crawling_def fetch_links_def is_relative_url_def visit_link_def)
qed

theorem unparsable_href_ends_consumer_witness:
  "netloc (demo_env 1) ''http://['' = Inl ValueError \<and>
   (\<exists>e'. malformed_href = set_task 0 (Failed e') run_1) \<and>
   (\<exists>e'. consumers missing_href ! 0 = Failed e') \<and>
   visited_urls missing_href = visited_urls run_1 \<and>
   missing_href = set_task 0 (Failed TypeError) run_1"
proof -
  have i: "0 < length (consumers run_1)" by (simp add: run_1_eq)
  have n: "netloc (demo_env 1) ''http://['' = Inl ValueError"
    by (simp add: demo_env_fields demo_netloc_def)
  have m: "Some ''http://['' \<in> set [Some ''http://['']" "None \<in> set [None :: string option]"
    by simp_all
  from unparsable_href_ends_consumer[OF i, of "[Some ''http://['']" "demo_env 1"
      "\<lparr>depth = 0, url = ''http://a/''\<rparr>"]
    unparsable_href_ends_consumer[OF i, of "[None]" "demo_env 1"
      "\<lparr>depth = 0, url = ''http://a/''\<rparr>"] n m
  show ?thesis unfolding malformed_href_def missing_href_def by blast
qed

text \<open>
  The claim fails for a start page with a tag that has no \<^verbatim>\<open>href\<close>, and for one with
  the \<^verbatim>\<open>href\<close> \<^verbatim>\<open>http://[\<close>: an exception is raised and ends the consumer.
\<close>

theorem unparsable_href_counterexample:
  "reachable (demo_env 1) ''http://a/'' 1 missing_href \<and>
   consumers missing_href = [Failed TypeError] \<and>
   reachable (demo_env 1) ''http://a/'' 1 malformed_href \<and>
   consumers malformed_href = [Failed ValueError] \<and>
   \<not> joined missing_href \<and> \<not> joined malformed_href"
  using missing_href_reachable malformed_href_reachable
  by (simp add: missing_href_eq malformed_href_eq run_1_eq joined_def)

text \<open>
  C7. Moving a URL to the visited set raises \<^verbatim>\<open>KeyError\<close> when the URL is not in the
  to-visit set: the consumer ends with that exception, nothing is added to the visited set
  and the task is not reported done. When the URL is in the to-visit set, it is removed
  from it and added to the visited set.
\<close>

theorem mark_visited_needs_to_visit:
  "(u \<notin> urls_to_visit s \<longrightarrow> mark_visited u s = Inl KeyError) \<and>
   (u \<in> urls_to_visit s \<longrightarrow>
      (\<exists>s'. mark_visited u s = Inr s' \<and> urls_to_visit s' = urls_to_visit s - {u} \<and>
            visited_urls s' = insert u (visited_urls s))) \<and>
   (i < length (consumers s) \<and> url l \<notin> urls_to_visit s \<longrightarrow>
      consumers (end_crawling i l s) ! i = Failed KeyError \<and>
      visited_urls (end_crawling i l s) = visited_urls s \<and>
      urls_to_visit (end_crawling i l s) = urls_to_visit s \<and>
      unfinished_tasks (end_crawling i l s) = unfinished_tasks s)"
  by (simp add: mark_visited_def end_crawling_def set_task_def)

theorem mark_visited_needs_to_visit_witness:
  "mark_visited ''http://b/'' (crawl ''http://a/'' 1) = Inl KeyError \<and>
   (\<exists>s'. mark_visited ''http://a/'' (crawl ''http://a/'' 1) = Inr s' \<and>
         urls_to_visit s' = {} \<and> visited_urls s' = {''http://a/''}) \<and>
   consumers (end_crawling 0 \<lparr>depth = 0, url = ''http://b/''\<rparr> (crawl ''http://a/'' 1)) ! 0 =
     Failed KeyError"
  using mark_visited_needs_to_visit[of "''http://b/''" "crawl ''http://a/'' 1" 0
      "\<lparr>depth = 0, url = ''http://b/''\<rparr>"]
    mark_visited_needs_to_visit[of "''http://a/''" "crawl ''http://a/'' 1" 0
      "\<lparr>depth = 0, url = ''http://b/''\<rparr>"]
  by (simp add: crawl_def empty_state_def produce_def)

text \<open>
  C8. With \<open>max_depth = 0\<close> no request is sent and no edge is recorded in any state of the
  crawl, and when \<^verbatim>\<open>queue.join()\<close> returns the graph has exactly one node, the start URL
  at depth 0. With at least one consumer the crawl does reach that state.
\<close>

theorem max_depth_zero_start_only:
  assumes "max_depth E = 0" and "reachable E start_url parallelism s"
  shows "requests s = [] \<and> edges (graph s) = {} \<and>
         (joined s \<longrightarrow> nodes (graph s) = [start_url \<mapsto> Some 0]) \<and>
         (0 < parallelism \<longrightarrow> (\<exists>t. reachable E start_url parallelism t \<and> joined t))"
proof -
  from assms have m: "max_depth E \<le> 0" by simp
  from reachable_start_only[OF m assms(2)]
  have a: "requests s = [] \<and> edges (graph s) = {} \<and>
      (joined s \<longrightarrow> nodes (graph s) = [start_url \<mapsto> Some 0])"
    by (auto simp: crawl_fields start_only_def joined_def)
  have "joined (start_only start_url parallelism)" by (simp add: start_only_def joined_def)
  with start_only_reachable[OF m] a show ?thesis by blast
qed

theorem max_depth_zero_start_only_witness:
  "max_depth (demo_env 0) = 0 \<and>
   joined (start_crawling (demo_env 0) 0 (crawl ''http://a/'' 1)) \<and>
   requests (start_crawling (demo_env 0) 0 (crawl ''http://a/'' 1)) = [] \<and>
   edges (graph (start_crawling (demo_env 0) 0 (crawl ''http://a/'' 1))) = {} \<and>
   nodes (graph (start_crawling (demo_env 0) 0 (crawl ''http://a/'' 1))) =
     [''http://a/'' \<mapsto> Some 0]"
proof -
  let ?s = "start_crawling (demo_env 0) 0 (crawl ''http://a/'' 1)"
  have m: "max_depth (demo_env 0) = 0" by (simp add: demo_env_fields)
  have r: "reachable (demo_env 0) ''http://a/'' 1 ?s"
    by (rule reachable.later[OF reachable.seeded], rule step.get) (simp_all add: crawl_1_fields)
  have j: "joined ?s" by (simp add: joined_def run_defs)
  from max_depth_zero_start_only[OF m r] m j show ?thesis by blast
qed

text \<open>
  C9. Two links are equal exactly when their depths and their URLs are equal, and a link is
  smaller than another exactly when its depth is smaller, or the depths are equal and its
  URL is the smaller string.
\<close>

theorem Link_equality_and_order:
  "(Link_eq a b \<longleftrightarrow> depth a = depth b \<and> url a = url b) \<and>
   (Link_eq a b \<longleftrightarrow> a = b) \<and>
   (Link_lt a b \<longleftrightarrow> depth a < depth b \<or> (depth a = depth b \<and> str_lt (url a) (url b)))"
proof -
  have irr: "\<not> str_lt x x" for x by (induction x) auto
  show ?thesis
    by (cases a, cases b) (auto simp: Link_eq_def tuple_eq_def Link_lt_def tuple_lt_def irr)
qed

theorem Link_equality_and_order_witness:
  "Link_lt \<lparr>depth = 1, url = ''http://b/''\<rparr> \<lparr>depth = 2, url = ''http://a/''\<rparr> \<and>
   Link_lt \<lparr>depth = 1, url = ''http://a/''\<rparr> \<lparr>depth = 1, url = ''http://a/b''\<rparr> \<and>
   \<not> Link_lt \<lparr>depth = 1, url = ''http://b/''\<rparr> \<lparr>depth = 1, url = ''http://a/''\<rparr> \<and>
   \<not> Link_eq \<lparr>depth = 1, url = ''http://a/''\<rparr> \<lparr>depth = 2, url = ''http://a/''\<rparr> \<and>
   Link_eq \<lparr>depth = 1, url = ''http://a/''\<rparr> \<lparr>depth = 1, url = ''http://a/''\<rparr>"
  using Link_equality_and_order[of "\<lparr>depth = 1, url = ''http://b/''\<rparr>" "\<lparr>depth = 2, url = ''http://a/''\<rparr>"]
    Link_equality_and_order[of "\<lparr>depth = 1, url = ''http://a/''\<rparr>" "\<lparr>depth = 1, url = ''http://a/b''\<rparr>"]
    Link_equality_and_order[of "\<lparr>depth = 1, url = ''http://b/''\<rparr>" "\<lparr>depth = 1, url = ''http://a/''\<rparr>"]
    Link_equality_and_order[of "\<lparr>depth = 1, url = ''http://a/''\<rparr>" "\<lparr>depth = 2, url = ''http://a/''\<rparr>"]
    Link_equality_and_order[of "\<lparr>depth = 1, url = ''http://a/''\<rparr>" "\<lparr>depth = 1, url = ''http://a/''\<rparr>"]
  by simp

text \<open>
  C10, as the code has it. \<^verbatim>\<open>crawl\<close> puts the start link in the queue and in
  \<^verbatim>\<open>urls_to_visit\<close> whatever the pattern and the allowed domains are, and the consumer that
  takes it records it as a node at depth 0 and, when \<open>max_depth\<close> is positive, sends the
  request for it; with \<open>max_depth\<close> 0 or less no request is sent. None of this depends on
  the pattern, on the allowed domains or on \<^verbatim>\<open>urlparse\<close>.
\<close>

theorem start_url_not_filtered:
  "queue (crawl start_url parallelism) = [\<lparr>depth = 0, url = start_url\<rparr>] \<and>
   urls_to_visit (crawl start_url parallelism) = {start_url} \<and>
   (\<forall>d. get_domain E start_url = Inr d \<longrightarrow>
      crawl_main E start_url parallelism =
        Inr (E\<lparr>allowed_domains := [d]\<rparr>, crawl start_url parallelism)) \<and>
   (\<forall>i. i < nat parallelism \<longrightarrow>
      step E (crawl start_url parallelism) (start_crawling E i (crawl start_url parallelism)) \<and>
      nodes (graph (start_crawling E i (crawl start_url parallelism))) start_url = Some (Some 0) \<and>
      consumed (start_crawling E i (crawl start_url parallelism)) =
        [\<lparr>depth = 0, url = start_url\<rparr>] \<and>
      (0 < max_depth E \<longrightarrow>
         requests (start_crawling E i (crawl start_url parallelism)) = [start_url] \<and>
         consumers (start_crawling E i (crawl start_url parallelism)) ! i =
           Fetching \<lparr>depth = 0, url = start_url\<rparr>) \<and>
      (max_depth E \<le> 0 \<longrightarrow>
         requests (start_crawling E i (crawl start_url parallelism)) = []) \<and>
      start_crawling (E\<lparr>allowed_domains := a, url_match := m, netloc := p\<rparr>) i
          (crawl start_url parallelism) =
        start_crawling E i (crawl start_url parallelism))"
proof (intro conjI allI impI)
  fix i assume i: "i < nat parallelism"
  let ?c = "crawl start_url parallelism"
  show "step E ?c (start_crawling E i ?c)"
    using i by (intro step.get) (simp_all add: crawl_fields)
  show "nodes (graph (start_crawling E i ?c)) start_url = Some (Some 0)"
    by (simp add: start_crawling_def crawl_fields Let_def end_crawling_def mark_visited_def
        task_done_def set_task_def add_node_def nx_add_node_def)
  show "consumed (start_crawling E i ?c) = [\<lparr>depth = 0, url = start_url\<rparr>]"
    by (simp add: start_crawling_def crawl_fields Let_def end_crawling_def mark_visited_def
        task_done_def set_task_def add_node_def nx_add_node_def)
  show "start_crawling (E\<lparr>allowed_domains := a, url_match := m, netloc := p\<rparr>) i ?c =
      start_crawling E i ?c"
    by (simp add: start_crawling_def crawl_fields)
  show "requests (start_crawling E i ?c) = []" if "max_depth E \<le> 0"
    using that by (simp add: start_crawling_start_only start_only_def)
  assume "0 < max_depth E"
  then show "requests (start_crawling E i ?c) = [start_url]"
    and "consumers (start_crawling E i ?c) ! i = Fetching \<lparr>depth = 0, url = start_url\<rparr>"
    using i by (simp_all add: start_crawling_def crawl_fields Let_def set_task_def add_node_def)
qed (simp_all add: crawl_fields crawl_main_def)

theorem start_url_not_filtered_witness:
  "\<not> url_match ((demo_env 1)\<lparr>url_match := \<lambda>u. take 9 u = ''http://a/''\<rparr>) ''http://o/x'' \<and>
   has_valid_domain ((demo_env 1)\<lparr>url_match := \<lambda>u. take 9 u = ''http://a/''\<rparr>) ''http://o/x'' =
     Inr False \<and>
   nodes (graph (start_crawling ((demo_env 1)\<lparr>url_match := \<lambda>u. take 9 u = ''http://a/''\<rparr>) 0
     (crawl ''http://o/x'' 1))) ''http://o/x'' = Some (Some 0) \<and>
   requests (start_crawling ((demo_env 1)\<lparr>url_match := \<lambda>u. take 9 u = ''http://a/''\<rparr>) 0
     (crawl ''http://o/x'' 1)) = [''http://o/x''] \<and>
   consumers (start_crawling ((demo_env 1)\<lparr>url_match := \<lambda>u. take 9 u = ''http://a/''\<rparr>) 0
     (crawl ''http://o/x'' 1)) ! 0 = Fetching \<lparr>depth = 0, url = ''http://o/x''\<rparr>"
proof -
  let ?E = "(demo_env 1)\<lparr>url_match := \<lambda>u. take 9 u = ''http://a/''\<rparr>"
  have f: "\<not> url_match ?E ''http://o/x''" "has_valid_domain ?E ''http://o/x'' = Inr False"
    by (simp_all add: has_valid_domain_def get_domain_def demo_env_def demo_netloc_def)
  have i: "(0::nat) < nat 1" and m: "0 < max_depth ?E"
    by (simp_all add: demo_env_def)
  from start_url_not_filtered[of "''http://o/x''" 1 ?E] i m f show ?thesis by blast
qed

text \<open>
  The claim fails with \<open>max_depth = 0\<close>: the crawl of the start URL ends, with the URL
  recorded as a node, and no request was sent for it.
\<close>

theorem start_url_fetched_counterexample:
  "reachable (demo_env 0) ''http://a/'' 1 (start_only ''http://a/'' 1) \<and>
   joined (start_only ''http://a/'' 1) \<and>
   nodes (graph (start_only ''http://a/'' 1)) ''http://a/'' = Some (Some 0) \<and>
   visited_urls (start_only ''http://a/'' 1) = {''http://a/''} \<and>
   requests (start_only ''http://a/'' 1) = []"
proof -
  have "max_depth (demo_env 0) \<le> 0" by (simp add: demo_env_fields)
  from start_only_reachable[OF this, of 1 "''http://a/''"] show ?thesis
    by (simp add: start_only_def joined_def)
qed

end
